theory Spec2Isabelle
  imports Main "HOL-Library.Word" "HOL-Library.Log_Nat"
begin

section \<open>The statefulset autoscaler: data model\<close>

text \<open>
  Go's \<open>int32\<close> is a 32-bit word: \<open>+\<close>, \<open>-\<close> and \<open>*\<close> wrap around, and the
  comparisons of the source are the signed ones (\<open>\<le>s\<close>, \<open><s\<close>).
\<close>

type_synonym int32 = "32 word"

text \<open>
  \<open>time.Time\<close> and \<open>time.Duration\<close> are counted in nanoseconds. The instants the
  autoscaler handles are far from the ends of Go's range, so both are integers here.
\<close>

type_synonym time = int
type_synonym duration = int

datatype error = Error string

datatype Pod = Pod string

record Placement =
  PodName :: string
  VReplicas :: int32

record VPod =
  Key :: string
  Placements :: "Placement list"

record PredicatePolicy =
  PredName :: string

record PriorityPolicy =
  PrioName :: string
  Weight :: nat

record SchedulerPolicy =
  Predicates :: "PredicatePolicy list"
  Priorities :: "PriorityPolicy list"

text \<open>
  Modelled from the spec: the policy kind of package \<open>scheduler\<close> (its declaration is not
  part of the sources). The spec names two kinds; the autoscaler only tests for
  \<open>MAXFILLUP\<close>.
\<close>

datatype SchedulerPolicyType = MAXFILLUP | POLICY_BASED

text \<open>
  Modelled from the spec: the three policy names of package \<open>state\<close> that the sizing
  engine looks for (their declarations are not part of the sources).
\<close>

definition AvailabilityZonePriority :: string where
  "AvailabilityZonePriority = ''AvailabilityZonePriority''"

definition AvailabilityNodePriority :: string where
  "AvailabilityNodePriority = ''AvailabilityNodePriority''"

definition EvenPodSpread :: string where
  "EvenPodSpread = ''EvenPodSpread''"

text \<open>
  A pod lister answers \<open>Get name\<close> with a pod and an error, either of which may be nil.
  The second argument counts the attempts of one polling round, so that a lookup may fail
  first and succeed later.
\<close>

type_synonym PodLister = "string \<Rightarrow> nat \<Rightarrow> Pod option \<times> error option"

text \<open>
  The snapshot \<open>st.State\<close>. The methods \<open>TotalPending()\<close>,
  \<open>TotalExpectedVReplicas()\<close>, \<open>FreeCapacity()\<close> and \<open>Free(ordinal)\<close> belong to
  package \<open>state\<close>, which is not part of the sources: the snapshot carries their
  results as fields.
\<close>

record State =
  FreeCap :: "int32 list"
  SchedulablePods :: "int32 list"
  LastOrdinal :: int32
  Capacity :: int32
  Replicas :: int32
  NumZones :: int32
  NumNodes :: int32
  SchedulerPolicy :: SchedulerPolicyType
  SchedPolicy :: "SchedulerPolicy option"
  PodLister :: "PodLister option"
  TotalPending :: int32
  TotalExpectedVReplicas :: int32
  FreeCapacity :: int32
  Free :: "int32 \<Rightarrow> int32"

text \<open>
  The autoscaler itself. \<open>trigger\<close> is the buffer of the channel made by
  \<open>make(chan struct{}, 1)\<close>.
\<close>

record autoscaler =
  capacity :: int32
  refreshPeriod :: duration
  isLeader :: bool
  lastCompactAttempt :: time
  trigger :: "unit list"

section \<open>float64 arithmetic\<close>

text \<open>
  A finite \<open>float64\<close> is the rational it denotes; infinities and NaN are one value
  \<open>NonFinite\<close>, since all the autoscaler does with them is to convert them to
  \<open>int32\<close>. Division and multiplication round the exact result to the nearest number
  with a 53-bit significand, ties to even. The operands of the autoscaler are integers
  of 32 bits and their quotients and products, so neither the exponent range nor the
  sign of zero plays a part.
\<close>

datatype float64 = Fin rat | NonFinite

text \<open>The exponent \<open>e\<close> of a positive rational: \<open>2 ^ e \<le> y < 2 ^ (e + 1)\<close>.\<close>

definition f64_exponent :: "rat \<Rightarrow> int" where
  "f64_exponent y = (if 1 \<le> y then bitlen \<lfloor>y\<rfloor> - 1 else - bitlen (\<lceil>1 / y\<rceil> - 1))"

text \<open>Nearest integer, ties to even.\<close>

definition round_even :: "rat \<Rightarrow> int" where
  "round_even m =
     (let f = \<lfloor>m\<rfloor>; d = m - of_int f
      in if d < 1 / 2 then f else if 1 / 2 < d then f + 1 else if even f then f else f + 1)"

definition f64_round :: "rat \<Rightarrow> rat" where
  "f64_round x =
     (if x = 0 then 0
      else let s = 2 powi (52 - f64_exponent \<bar>x\<bar>)
           in sgn x * of_int (round_even (\<bar>x\<bar> * s)) / s)"

definition float64_of_int32 :: "int32 \<Rightarrow> float64" where
  "float64_of_int32 w = Fin (of_int (sint w))"

fun f64_div :: "float64 \<Rightarrow> float64 \<Rightarrow> float64" where
  "f64_div (Fin x) (Fin y) = (if y = 0 then NonFinite else Fin (f64_round (x / y)))"
| "f64_div _ _ = NonFinite"

fun f64_mul :: "float64 \<Rightarrow> float64 \<Rightarrow> float64" where
  "f64_mul (Fin x) (Fin y) = Fin (f64_round (x * y))"
| "f64_mul _ _ = NonFinite"

fun f64_Ceil :: "float64 \<Rightarrow> float64" where
  "f64_Ceil (Fin x) = Fin (of_int \<lceil>x\<rceil>)"
| "f64_Ceil NonFinite = NonFinite"

text \<open>
  The conversion \<open>int32(f)\<close> truncates towards zero. Where the truncated value does not
  fit, or \<open>f\<close> is not finite, Go leaves the result to the implementation: the first
  argument is what the implementation returns there.
\<close>

definition trunc_rat :: "rat \<Rightarrow> int" where
  "trunc_rat x = (if 0 \<le> x then \<lfloor>x\<rfloor> else \<lceil>x\<rceil>)"

fun int32_of_float64 :: "(float64 \<Rightarrow> int32) \<Rightarrow> float64 \<Rightarrow> int32" where
  "int32_of_float64 impl (Fin x) =
     (if - (2 ^ 31) \<le> trunc_rat x \<and> trunc_rat x < 2 ^ 31 then word_of_int (trunc_rat x)
      else impl (Fin x))"
| "int32_of_float64 impl NonFinite = impl NonFinite"

section \<open>Leader gate\<close>

record NamespacedName =
  Namespace :: string
  Name :: string

definition ephemeralLeaderElectionObject :: NamespacedName where
  "ephemeralLeaderElectionObject =
     \<lparr>Namespace = ''knative-eventing'', Name = ''autoscaler-ephemeral''\<rparr>"

text \<open>A \<open>reconciler.Bucket\<close> is what its method \<open>Has\<close> answers.\<close>

type_synonym Bucket = "NamespacedName \<Rightarrow> bool"

definition Promote :: "autoscaler \<Rightarrow> Bucket \<Rightarrow> autoscaler \<times> error option" where
  "Promote a b =
     (if b ephemeralLeaderElectionObject then (a\<lparr>isLeader := True\<rparr>, None) else (a, None))"

definition Demote :: "autoscaler \<Rightarrow> Bucket \<Rightarrow> autoscaler" where
  "Demote a b = (if b ephemeralLeaderElectionObject then a\<lparr>isLeader := False\<rparr> else a)"

section \<open>Trigger\<close>

text \<open>
  A send on a buffered channel goes through when the buffer has room; otherwise the
  sender blocks until a receiver takes a value: \<open>None\<close>. A receive takes the oldest
  value, and blocks on an empty buffer.
\<close>

definition chan_send :: "nat \<Rightarrow> 'a \<Rightarrow> 'a list \<Rightarrow> 'a list option" where
  "chan_send cap x buf = (if length buf < cap then Some (buf @ [x]) else None)"

fun chan_recv :: "'a list \<Rightarrow> ('a \<times> 'a list) option" where
  "chan_recv [] = None"
| "chan_recv (x # buf) = Some (x, buf)"

definition trigger_cap :: nat where
  "trigger_cap = 1"

definition Autoscale :: "autoscaler \<Rightarrow> autoscaler option" where
  "Autoscale a = map_option (\<lambda>buf. a\<lparr>trigger := buf\<rparr>) (chan_send trigger_cap () (trigger a))"

section \<open>Sizing\<close>

fun contains :: "PredicatePolicy list \<Rightarrow> PriorityPolicy list \<Rightarrow> string \<Rightarrow> bool" where
  "contains (v # preds) priors name = (if PredName v = name then True else contains preds priors name)"
| "contains [] (v # priors) name = (if PrioName v = name then True else contains [] priors name)"
| "contains [] [] name = False"

fun minNonZeroInt_loop :: "int32 \<Rightarrow> int32 list \<Rightarrow> int32" where
  "minNonZeroInt_loop m [] = m"
| "minNonZeroInt_loop m (v # vs) =
     minNonZeroInt_loop (if v <s m \<and> 0 <s v then v else m) vs"

definition minNonZeroInt :: "autoscaler \<Rightarrow> int32 list \<Rightarrow> int32" where
  "minNonZeroInt a vs = minNonZeroInt_loop (capacity a) vs"

text \<open>Lines 190 to 197 of \<open>doautoscale\<close>: two assignments, one after the other.\<close>

definition scaleUpFactor :: "State \<Rightarrow> int32" where
  "scaleUpFactor state =
     (let f = 1;
          f = (if SchedPolicy state \<noteq> None
                  \<and> contains [] (Priorities (the (SchedPolicy state))) AvailabilityZonePriority
               then NumZones state else f);
          f = (if SchedPolicy state \<noteq> None
                  \<and> contains [] (Priorities (the (SchedPolicy state))) AvailabilityNodePriority
               then NumNodes state else f)
      in f)"

text \<open>\<open>int32(math.Ceil(float64(a) / float64(b)))\<close>\<close>

definition ceil_quot :: "(float64 \<Rightarrow> int32) \<Rightarrow> int32 \<Rightarrow> int32 \<Rightarrow> int32" where
  "ceil_quot impl a b =
     int32_of_float64 impl (f64_Ceil (f64_div (float64_of_int32 a) (float64_of_int32 b)))"

text \<open>\<open>int32(math.Ceil(float64(a) / float64(b)) * float64(b))\<close>\<close>

definition ceil_multiple :: "(float64 \<Rightarrow> int32) \<Rightarrow> int32 \<Rightarrow> int32 \<Rightarrow> int32" where
  "ceil_multiple impl a b =
     int32_of_float64 impl
       (f64_mul (f64_Ceil (f64_div (float64_of_int32 a) (float64_of_int32 b)))
                (float64_of_int32 b))"

text \<open>The divisor of the pending replicas, lines 208 to 213.\<close>

definition perPod :: "autoscaler \<Rightarrow> State \<Rightarrow> int32" where
  "perPod a state =
     (if SchedPolicy state \<noteq> None
         \<and> contains (Predicates (the (SchedPolicy state))) [] EvenPodSpread
         \<and> 0 < length (FreeCap state)
      then minNonZeroInt a (FreeCap state)
      else capacity a)"

text \<open>Lines 199 to 221: the replica count before the scale-down gate.\<close>

definition sizeReplicas :: "(float64 \<Rightarrow> int32) \<Rightarrow> autoscaler \<Rightarrow> State \<Rightarrow> int32" where
  "sizeReplicas impl a state =
     (let scaleUpFactor = scaleUpFactor state;
          newreplicas = LastOrdinal state + 1
      in if SchedulerPolicy state = MAXFILLUP
         then ceil_quot impl (TotalExpectedVReplicas state) (Capacity state)
         else
           let pending = TotalPending state;
               newreplicas =
                 (if 0 <s pending
                  then let minNumPods = ceil_quot impl pending (perPod a state)
                       in newreplicas + ceil_multiple impl minNumPods scaleUpFactor
                  else newreplicas)
           in if newreplicas \<le>s LastOrdinal state
              then LastOrdinal state + scaleUpFactor
              else newreplicas)"

text \<open>Lines 223 to 226: only scale down if permitted.\<close>

definition desiredReplicas ::
  "(float64 \<Rightarrow> int32) \<Rightarrow> autoscaler \<Rightarrow> State \<Rightarrow> int32 \<Rightarrow> bool \<Rightarrow> int32" where
  "desiredReplicas impl a state replicas attemptScaleDown =
     (let newreplicas = sizeReplicas impl a state
      in if \<not> attemptScaleDown \<and> newreplicas <s replicas then replicas else newreplicas)"

text \<open>
  The spec's words for the number of HA units to add: \<open>minNumPods\<close> is the pending
  replicas divided by the per-pod divisor, rounded up, and the units are \<open>minNumPods\<close>
  divided by the scale-up factor, rounded up; both in exact arithmetic.
\<close>

definition spec_haUnits :: "int \<Rightarrow> int \<Rightarrow> int \<Rightarrow> int" where
  "spec_haUnits pending divisor f =
     \<lceil>of_int \<lceil>of_int pending / of_int divisor :: rat\<rceil> / of_int f :: rat\<rceil>"

section \<open>The collaborators of one pass\<close>

text \<open>
  What the autoscaler calls outside itself is recorded, in order, as a list of events.
\<close>

datatype io =
    IO_State
  | IO_GetScale
  | IO_UpdateScale int32
  | IO_Now
  | IO_VPodLister
  | IO_PodGet string
  | IO_Evict "Pod option" VPod Placement

text \<open>
  The answers of the collaborators during one call of \<open>doautoscale\<close>: the state
  accessor, the scale subresource, the vpod lister and the evictor, the function
  \<open>st.OrdinalFromPodName\<close> (of package \<open>state\<close>, not part of the sources), the
  number of further attempts that the five seconds of \<open>wait.PollImmediate\<close> leave after
  the immediate one, the two readings of \<open>time.Now()\<close> in \<open>mayCompact\<close>, and the
  result of a conversion to \<open>int32\<close> that Go leaves to the implementation.
\<close>

record Env =
  stateAccessor :: "error + State"
  GetScale :: "error + int32"
  UpdateScale :: "int32 \<Rightarrow> error option"
  vpodLister :: "error + VPod list"
  evictor :: "Pod option \<Rightarrow> VPod \<Rightarrow> Placement \<Rightarrow> error option"
  OrdinalFromPodName :: "string \<Rightarrow> int32"
  pollRetries :: nat
  nowCheck :: time
  nowAttempt :: time
  floatImpl :: "float64 \<Rightarrow> int32"

section \<open>Compaction\<close>

text \<open>
  The condition function of \<open>wait.PollImmediate\<close> in \<open>compact\<close>, on the variables
  \<open>pod\<close> and \<open>err\<close> of the enclosing function, and the polling itself: the condition
  runs at once, and again as long as it fails and attempts are left.
\<close>

definition podCond ::
  "PodLister option \<Rightarrow> string \<Rightarrow> nat \<Rightarrow> Pod option \<times> error option
     \<Rightarrow> (Pod option \<times> error option) \<times> io list" where
  "podCond lister name k v =
     (case lister of None \<Rightarrow> (v, []) | Some get \<Rightarrow> (get name k, [IO_PodGet name]))"

fun podPoll ::
  "PodLister option \<Rightarrow> string \<Rightarrow> nat \<Rightarrow> nat \<Rightarrow> Pod option \<times> error option
     \<Rightarrow> (Pod option \<times> error option) \<times> io list" where
  "podPoll lister name k 0 v = podCond lister name k v"
| "podPoll lister name k (Suc n) v =
     (let (v', tr) = podCond lister name k v
      in if snd v' = None then (v', tr)
         else let (v'', tr') = podPoll lister name (Suc k) n v' in (v'', tr @ tr'))"

text \<open>
  The loop over \<open>j\<close> for one placement. \<open>Inl err\<close> is the \<open>return err\<close> of
  \<open>compact\<close>; \<open>Inr\<close> carries \<open>pod\<close> and \<open>err\<close> to the next iteration.
\<close>

function evictLoop ::
  "Env \<Rightarrow> State \<Rightarrow> int32 \<Rightarrow> VPod \<Rightarrow> Placement \<Rightarrow> int32 \<Rightarrow> Pod option \<times> error option
     \<Rightarrow> (error + Pod option \<times> error option) \<times> io list" where
  "evictLoop env s f vpod p j v =
     (if j <s f then
        (if OrdinalFromPodName env (PodName p) = LastOrdinal s - j then
           (let (v', tr) = podPoll (PodLister s) (PodName p) 0 (pollRetries env) v;
                err = evictor env (fst v') vpod p
            in case err of
                 Some e \<Rightarrow> (Inl e, tr @ [IO_Evict (fst v') vpod p])
               | None \<Rightarrow>
                   (let (r, tr') = evictLoop env s f vpod p (j + 1) (fst v', None)
                    in (r, tr @ [IO_Evict (fst v') vpod p] @ tr')))
         else evictLoop env s f vpod p (j + 1) v)
      else (Inr v, []))"
  by pat_completeness auto
termination
proof (relation "measure (\<lambda>(env, s, f, vpod, p, j, v). nat (sint f - sint j))")
  show "wf (measure (\<lambda>(env, s, f, vpod, p, j, v). nat (sint f - sint j)))"
    by simp
next
  fix env :: Env and s :: State and f j :: int32 and vpod :: VPod and p :: Placement
    and v :: "Pod option \<times> error option"
  assume "j <s f"
  then have lt: "sint j < sint f" by (simp add: word_sless_alt)
  have "sint f < 2 ^ 31" using sint_lt [of f] by simp
  with lt have "sint j + 1 < 2 ^ 31" by linarith
  moreover have "- (2 ^ 31) \<le> sint j" using sint_ge [of j] by simp
  ultimately have "sint (j + 1) = sint j + 1"
    by (simp add: sint_word_ariths signed_take_bit_int_eq_self)
  with lt have "nat (sint f - sint (j + 1)) < nat (sint f - sint j)" by simp
  then show "((env, s, f, vpod, p, j + 1, v), (env, s, f, vpod, p, j, v))
      \<in> measure (\<lambda>(env, s, f, vpod, p, j, v). nat (sint f - sint j))"
    by simp
  fix v' :: "Pod option \<times> error option"
  show "((env, s, f, vpod, p, j + 1, fst v', None), (env, s, f, vpod, p, j, v))
      \<in> measure (\<lambda>(env, s, f, vpod, p, j, v). nat (sint f - sint j))"
    using \<open>nat (sint f - sint (j + 1)) < nat (sint f - sint j)\<close> by simp
qed

declare evictLoop.simps [simp del]

text \<open>The placements of one vpod, handed over last first, and the vpods in order.\<close>

fun placementsLoop ::
  "Env \<Rightarrow> State \<Rightarrow> int32 \<Rightarrow> VPod \<Rightarrow> Placement list \<Rightarrow> Pod option \<times> error option
     \<Rightarrow> (error + Pod option \<times> error option) \<times> io list" where
  "placementsLoop env s f vpod [] v = (Inr v, [])"
| "placementsLoop env s f vpod (p # ps) v =
     (case evictLoop env s f vpod p 0 v of
        (Inl e, tr) \<Rightarrow> (Inl e, tr)
      | (Inr v', tr) \<Rightarrow>
          (let (r, tr') = placementsLoop env s f vpod ps v' in (r, tr @ tr')))"

fun vpodsLoop ::
  "Env \<Rightarrow> State \<Rightarrow> int32 \<Rightarrow> VPod list \<Rightarrow> Pod option \<times> error option
     \<Rightarrow> (error + Pod option \<times> error option) \<times> io list" where
  "vpodsLoop env s f [] v = (Inr v, [])"
| "vpodsLoop env s f (vpod # vpods) v =
     (case placementsLoop env s f vpod (rev (Placements vpod)) v of
        (Inl e, tr) \<Rightarrow> (Inl e, tr)
      | (Inr v', tr) \<Rightarrow>
          (let (r, tr') = vpodsLoop env s f vpods v' in (r, tr @ tr')))"

definition compact :: "Env \<Rightarrow> autoscaler \<Rightarrow> State \<Rightarrow> int32 \<Rightarrow> error option \<times> io list" where
  "compact env a s f =
     (case vpodLister env of
        Inl err \<Rightarrow> (Some err, [IO_VPodLister])
      | Inr vpods \<Rightarrow>
          (case vpodsLoop env s f vpods (None, None) of
             (Inl err, tr) \<Rightarrow> (Some err, IO_VPodLister # tr)
           | (Inr v, tr) \<Rightarrow> (None, IO_VPodLister # tr)))"

text \<open>The loop of lines 289 to 292 on \<open>freeCapacity\<close> and \<open>usedInLastXPods\<close>.\<close>

function windowLoop :: "State \<Rightarrow> int32 \<Rightarrow> int32 \<Rightarrow> int32 \<times> int32 \<Rightarrow> int32 \<times> int32" where
  "windowLoop s f i (freeCapacity, usedInLastXPods) =
     (if i <s f \<and> 0 \<le>s LastOrdinal s - i
      then windowLoop s f (i + 1)
             (freeCapacity - Free s (LastOrdinal s - i),
              usedInLastXPods - Free s (LastOrdinal s - i))
      else (freeCapacity, usedInLastXPods))"
  by pat_completeness auto
termination
proof (relation "measure (\<lambda>(s, f, i, acc). nat (sint f - sint i))")
  show "wf (measure (\<lambda>(s, f, i, acc). nat (sint f - sint i)))"
    by simp
next
  fix s :: State and f i freeCapacity usedInLastXPods :: int32
  assume "i <s f \<and> 0 \<le>s LastOrdinal s - i"
  then have lt: "sint i < sint f" by (simp add: word_sless_alt)
  have "sint f < 2 ^ 31" using sint_lt [of f] by simp
  with lt have "sint i + 1 < 2 ^ 31" by linarith
  moreover have "- (2 ^ 31) \<le> sint i" using sint_ge [of i] by simp
  ultimately have "sint (i + 1) = sint i + 1"
    by (simp add: sint_word_ariths signed_take_bit_int_eq_self)
  with lt show "((s, f, i + 1, freeCapacity - Free s (LastOrdinal s - i),
                  usedInLastXPods - Free s (LastOrdinal s - i)),
                 (s, f, i, freeCapacity, usedInLastXPods))
      \<in> measure (\<lambda>(s, f, i, acc). nat (sint f - sint i))"
    by simp
qed

declare windowLoop.simps [simp del]

text \<open>
  \<open>mayCompact\<close> returns the autoscaler, whose \<open>lastCompactAttempt\<close> it may have set.
  The error of \<open>compact\<close> is logged and dropped.
\<close>

definition attemptCompact :: "Env \<Rightarrow> autoscaler \<Rightarrow> State \<Rightarrow> int32 \<Rightarrow> autoscaler \<times> io list" where
  "attemptCompact env a s f =
     (let a' = a\<lparr>lastCompactAttempt := nowAttempt env\<rparr>;
          (err, tr) = compact env a' s f
      in (a', [IO_Now, IO_Now] @ tr))"

definition mayCompact :: "Env \<Rightarrow> autoscaler \<Rightarrow> State \<Rightarrow> int32 \<Rightarrow> autoscaler \<times> io list" where
  "mayCompact env a s f =
     (let nextAttempt = lastCompactAttempt a + refreshPeriod a
      in if nowCheck env < nextAttempt then (a, [IO_Now])
         else if LastOrdinal s <s 1 \<or> int (length (SchedulablePods s)) \<le> sint f
         then (a, [IO_Now])
         else if SchedulerPolicy s = MAXFILLUP
         then
           (let freeCapacity = FreeCapacity s - Free s (LastOrdinal s);
                usedInLastPod = Capacity s - Free s (LastOrdinal s)
            in if usedInLastPod \<le>s freeCapacity then attemptCompact env a s f
               else (a, [IO_Now]))
         else if SchedPolicy s \<noteq> None
         then
           (let (freeCapacity, usedInLastXPods) =
                  windowLoop s f 0 (FreeCapacity s, Capacity s * f)
            in if usedInLastXPods \<le>s freeCapacity \<and> f \<le>s Replicas s - f
               then attemptCompact env a s f
               else (a, [IO_Now]))
         else (a, [IO_Now]))"

section \<open>One pass\<close>

definition doautoscale ::
  "Env \<Rightarrow> autoscaler \<Rightarrow> bool \<Rightarrow> error option \<times> autoscaler \<times> io list" where
  "doautoscale env a attemptScaleDown =
     (if \<not> isLeader a then (None, a, [])
      else case stateAccessor env of
        Inl err \<Rightarrow> (Some err, a, [IO_State])
      | Inr state \<Rightarrow>
          (case GetScale env of
             Inl err \<Rightarrow> (Some err, a, [IO_State, IO_GetScale])
           | Inr replicas \<Rightarrow>
               (let f = scaleUpFactor state;
                    newreplicas =
                      desiredReplicas (floatImpl env) a state replicas attemptScaleDown
                in if newreplicas \<noteq> replicas
                   then (UpdateScale env newreplicas, a,
                         [IO_State, IO_GetScale, IO_UpdateScale newreplicas])
                   else if attemptScaleDown
                   then (let (a', tr) = mayCompact env a state f
                         in (None, a', [IO_State, IO_GetScale] @ tr))
                   else (None, a, [IO_State, IO_GetScale]))))"

section \<open>Reading the events\<close>


text \<open>
  The eviction window of a pass: the ordinals \<open>LastOrdinal - k\<close> for
  \<open>0 \<le> k < scaleUpFactor\<close>.
\<close>

definition inWindow :: "Env \<Rightarrow> State \<Rightarrow> int32 \<Rightarrow> Placement \<Rightarrow> bool" where
  "inWindow env s f p \<longleftrightarrow>
     (\<exists>k. 0 \<le> k \<and> k < sint f
        \<and> OrdinalFromPodName env (PodName p) = LastOrdinal s - word_of_int k)"

text \<open>
  Where the pod handed to the evictor comes from: without a pod lister it is the value of
  the variable \<open>pod\<close> before the polling, with one it is what one of the attempts
  returned.
\<close>

definition podFrom :: "Env \<Rightarrow> State \<Rightarrow> Placement \<Rightarrow> Pod option \<Rightarrow> Pod option \<Rightarrow> bool" where
  "podFrom env s p pod0 pod \<longleftrightarrow>
     (case PodLister s of
        None \<Rightarrow> pod = pod0
      | Some get \<Rightarrow> \<exists>i \<le> pollRetries env. pod = fst (get (PodName p) i))"

section \<open>Example inputs\<close>

text \<open>
  An autoscaler that is leader, with ten virtual replicas per pod and a refresh period
  of sixty seconds (in nanoseconds), started long ago.
\<close>

definition exampleAutoscaler :: autoscaler where
  "exampleAutoscaler =
     \<lparr>capacity = 10, refreshPeriod = 60000000000, isLeader = True,
      lastCompactAttempt = 0, trigger = []\<rparr>"

text \<open>Pod names of a statefulset called \<open>pod\<close>.\<close>

definition exampleOrdinal :: "string \<Rightarrow> int32" where
  "exampleOrdinal name =
     (if name = ''pod-0'' then 0 else if name = ''pod-1'' then 1
      else if name = ''pod-2'' then 2 else if name = ''pod-3'' then 3 else - 1)"

text \<open>One vpod with five virtual replicas on each of the pods 1 and 2.\<close>

definition exampleVPod :: VPod where
  "exampleVPod =
     \<lparr>Key = ''vpod-a'',
      Placements = [\<lparr>PodName = ''pod-1'', VReplicas = 5\<rparr>, \<lparr>PodName = ''pod-2'', VReplicas = 5\<rparr>]\<rparr>"

text \<open>
  Collaborators that all succeed, for a given snapshot and replica count of the
  statefulset; a conversion out of range gives the least \<open>int32\<close>, as on amd64.
\<close>

definition exampleEnv :: "State \<Rightarrow> int32 \<Rightarrow> time \<Rightarrow> Env" where
  "exampleEnv state replicas t =
     \<lparr>stateAccessor = Inr state, GetScale = Inr replicas, UpdateScale = (\<lambda>_. None),
      vpodLister = Inr [exampleVPod], evictor = (\<lambda>_ _ _. None),
      OrdinalFromPodName = exampleOrdinal, pollRetries = 100,
      nowCheck = t, nowAttempt = t + 1, floatImpl = (\<lambda>_. - (2 ^ 31))\<rparr>"

text \<open>
  A snapshot under \<open>POLICY_BASED\<close> with both availability priorities, three zones and
  five nodes, three pods in use and seven pending virtual replicas.
\<close>

definition zoneNodeState :: State where
  "zoneNodeState =
     \<lparr>FreeCap = [0, 0, 0], SchedulablePods = [0, 1, 2], LastOrdinal = 2, Capacity = 10,
      Replicas = 3, NumZones = 3, NumNodes = 5, SchedulerPolicy = POLICY_BASED,
      SchedPolicy = Some \<lparr>Predicates = [],
        Priorities = [\<lparr>PrioName = AvailabilityZonePriority, Weight = 10\<rparr>,
                      \<lparr>PrioName = AvailabilityNodePriority, Weight = 5\<rparr>]\<rparr>,
      PodLister = None, TotalPending = 7, TotalExpectedVReplicas = 37, FreeCapacity = 0,
      Free = (\<lambda>_. 0)\<rparr>"

text \<open>The same with the zone priority alone.\<close>

definition zoneState :: State where
  "zoneState =
     zoneNodeState\<lparr>SchedPolicy := Some \<lparr>Predicates = [],
        Priorities = [\<lparr>PrioName = AvailabilityZonePriority, Weight = 10\<rparr>]\<rparr>\<rparr>"

text \<open>
  A snapshot under \<open>MAXFILLUP\<close> without policy: capacity ten, thirty-five virtual
  replicas expected, two pods.
\<close>

definition growState :: State where
  "growState =
     \<lparr>FreeCap = [0, 0], SchedulablePods = [0, 1], LastOrdinal = 1, Capacity = 10,
      Replicas = 2, NumZones = 1, NumNodes = 1, SchedulerPolicy = MAXFILLUP,
      SchedPolicy = None, PodLister = None, TotalPending = 15,
      TotalExpectedVReplicas = 35, FreeCapacity = 0, Free = (\<lambda>_. 0)\<rparr>"

text \<open>
  A snapshot under \<open>MAXFILLUP\<close> whose policy also lists the zone priority, with two
  zones: three pods with five free places each, twenty-five virtual replicas expected.
\<close>

definition tailState :: State where
  "tailState =
     \<lparr>FreeCap = [5, 5, 5], SchedulablePods = [0, 1, 2], LastOrdinal = 2, Capacity = 10,
      Replicas = 3, NumZones = 2, NumNodes = 3, SchedulerPolicy = MAXFILLUP,
      SchedPolicy = Some \<lparr>Predicates = [],
        Priorities = [\<lparr>PrioName = AvailabilityZonePriority, Weight = 10\<rparr>]\<rparr>,
      PodLister = None, TotalPending = 10, TotalExpectedVReplicas = 25, FreeCapacity = 15,
      Free = (\<lambda>ordinal. if ordinal = 0 \<or> ordinal = 1 \<or> ordinal = 2 then 5 else 10)\<rparr>"

text \<open>
  A snapshot under \<open>POLICY_BASED\<close> with the predicate \<open>EvenPodSpread\<close>: three pods
  with 0, 2 and 5 free places, six pending virtual replicas.
\<close>

definition spreadState :: State where
  "spreadState =
     \<lparr>FreeCap = [0, 2, 5], SchedulablePods = [0, 1, 2], LastOrdinal = 2, Capacity = 10,
      Replicas = 3, NumZones = 1, NumNodes = 1, SchedulerPolicy = POLICY_BASED,
      SchedPolicy = Some \<lparr>Predicates = [\<lparr>PredName = EvenPodSpread\<rparr>], Priorities = []\<rparr>,
      PodLister = None, TotalPending = 6, TotalExpectedVReplicas = 29, FreeCapacity = 7,
      Free = (\<lambda>ordinal. if ordinal = 0 then 0 else if ordinal = 1 then 2
                else if ordinal = 2 then 5 else 10)\<rparr>"

text \<open>
  The snapshot under \<open>MAXFILLUP\<close> without a policy, and collaborators whose evictor
  fails, one hundred seconds after the start.
\<close>

definition compactState :: State where
  "compactState = tailState\<lparr>SchedPolicy := None\<rparr>"


text \<open>The same snapshot with a pod lister that never finds a pod.\<close>

definition lostPodsState :: State where
  "lostPodsState =
     compactState\<lparr>PodLister := Some (\<lambda>name k. (None, Some (Error ''pod not found'')))\<rparr>"

section \<open>Rounding does not move a quotient of integers across an integer\<close>

lemma round_even_floor: "\<lfloor>m\<rfloor> \<le> round_even m"
  by (simp add: round_even_def Let_def)

lemma round_even_ceiling: "round_even m \<le> \<lceil>m\<rceil>"
  unfolding round_even_def Let_def
  by (auto simp: ceiling_altdef)

lemma round_even_of_int [simp]: "round_even (of_int n) = n"
  by (simp add: round_even_def)

lemma f64_exponent_le:
  assumes "0 < y" shows "2 powi (f64_exponent y) \<le> y"
proof (cases "1 \<le> y")
  case True
  then have pos: "0 < \<lfloor>y\<rfloor>" by linarith
  from bitlen_bounds [OF pos] have "2 ^ nat (bitlen \<lfloor>y\<rfloor> - 1) \<le> \<lfloor>y\<rfloor>" by simp
  then have "(of_int (2 ^ nat (bitlen \<lfloor>y\<rfloor> - 1)) :: rat) \<le> of_int \<lfloor>y\<rfloor>"
    by (simp only: of_int_le_iff)
  also have "\<dots> \<le> y" by simp
  finally have "(2::rat) ^ nat (bitlen \<lfloor>y\<rfloor> - 1) \<le> y" by simp
  moreover have "1 \<le> bitlen \<lfloor>y\<rfloor>" using pos bitlen_eq_zero_iff [of "\<lfloor>y\<rfloor>"] bitlen_nonneg [of "\<lfloor>y\<rfloor>"] by linarith
  ultimately show ?thesis using True
    by (simp add: f64_exponent_def power_int_def)
next
  case False
  define c where "c = \<lceil>1 / y\<rceil>"
  define j where "j = bitlen (c - 1)"
  from False assms have "1 < 1 / y" by simp
  then have c2: "0 < c - 1" unfolding c_def by linarith
  from bitlen_bounds [OF c2] have "c - 1 < 2 ^ nat j" by (simp add: j_def)
  then have "c \<le> 2 ^ nat j" by simp
  then have "(of_int c :: rat) \<le> of_int (2 ^ nat j)" by (simp only: of_int_le_iff)
  then have "(of_int c :: rat) \<le> 2 ^ nat j" by simp
  moreover have "1 / y \<le> of_int c" unfolding c_def by simp
  ultimately have "1 / y \<le> 2 ^ nat j" by linarith
  then have "1 \<le> 2 ^ nat j * y" using assms by (simp add: field_simps)
  then have "1 / 2 ^ nat j \<le> y" by (simp add: field_simps)
  moreover have "0 < j" using c2 bitlen_eq_zero_iff [of "c - 1"] bitlen_nonneg [of "c - 1"]
    unfolding j_def by linarith
  ultimately show ?thesis using False
    by (simp add: f64_exponent_def power_int_def c_def j_def inverse_eq_divide power_one_over)
qed

lemma f64_exponent_ub:
  assumes "0 < y" "y < 2 ^ 53" shows "f64_exponent y \<le> 52"
proof (cases "1 \<le> y")
  case True
  then have pos: "0 < \<lfloor>y\<rfloor>" by linarith
  have "of_int \<lfloor>y\<rfloor> \<le> y" by simp
  then have "(of_int \<lfloor>y\<rfloor> :: rat) < 2 ^ 53" using assms by linarith
  then have lt: "\<lfloor>y\<rfloor> < 2 ^ 53" by (metis of_int_less_iff of_int_numeral of_int_power)
  from bitlen_bounds [OF pos] have "2 ^ nat (bitlen \<lfloor>y\<rfloor> - 1) \<le> \<lfloor>y\<rfloor>" by simp
  with lt have "(2::int) ^ nat (bitlen \<lfloor>y\<rfloor> - 1) < 2 ^ 53" by linarith
  then have "nat (bitlen \<lfloor>y\<rfloor> - 1) < 53" by (rule power_less_imp_less_exp [rotated]) simp
  then show ?thesis using True by (simp add: f64_exponent_def)
next
  case False
  then show ?thesis using bitlen_nonneg [of "\<lceil>1 / y\<rceil> - 1"] by (simp add: f64_exponent_def)
qed


lemma f64_round_minus: "f64_round (- x) = - f64_round x"
  by (simp add: f64_round_def Let_def sgn_minus)

lemma f64_round_of_int:
  assumes "\<bar>n\<bar> < 2 ^ 53" shows "f64_round (of_int n) = of_int n"
proof (cases "n = 0")
  case True then show ?thesis by (simp add: f64_round_def)
next
  case False
  define y :: rat where "y = \<bar>of_int n\<bar>"
  define k where "k = 52 - f64_exponent y"
  have ypos: "0 < y" using False by (simp add: y_def)
  have "\<bar>of_int n :: rat\<bar> = of_int \<bar>n\<bar>" by simp
  also have "\<dots> < of_int (2 ^ 53)" using assms by (simp only: of_int_less_iff)
  finally have "y < 2 ^ 53" by (simp add: y_def)
  from f64_exponent_ub [OF ypos this] have k: "0 \<le> k" by (simp add: k_def)
  then have s: "(2::rat) powi k = of_int (2 ^ nat k)" by (simp add: power_int_def)
  have "y = of_int \<bar>n\<bar>" by (simp add: y_def)
  then have "round_even (y * 2 powi k) = \<bar>n\<bar> * 2 ^ nat k"
    unfolding s by (simp only: round_even_of_int flip: of_int_mult)
  then have r: "of_int (round_even (y * 2 powi k)) / 2 powi k = (of_int \<bar>n\<bar> :: rat)"
    unfolding s by simp
  have "f64_round (of_int n) = sgn (of_int n) * of_int (round_even (y * 2 powi k)) / 2 powi k"
    using False by (simp add: f64_round_def Let_def y_def k_def)
  also have "\<dots> = sgn (of_int n) * (of_int (round_even (y * 2 powi k)) / 2 powi k)"
    by simp
  also have "\<dots> = sgn (of_int n :: rat) * \<bar>of_int n\<bar>"
    unfolding r by simp
  also have "\<dots> = of_int n" by (simp only: sgn_mult_abs)
  finally show ?thesis .
qed

text \<open>The rounded value of a positive quotient stays on the same side of every integer.\<close>

lemma f64_round_pos_bounds:
  fixes x :: rat and a b n :: int
  assumes x: "0 < x" and b: "0 < b" and ab: "x * of_int b = of_int a" and a: "a < 2 ^ 52"
  shows "x \<le> of_int n \<Longrightarrow> f64_round x \<le> of_int n"
    and "of_int n < x \<Longrightarrow> of_int n < f64_round x"
    and "of_int n \<le> x \<Longrightarrow> of_int n \<le> f64_round x"
    and "x < of_int n \<Longrightarrow> f64_round x < of_int n"
proof -
  define k where "k = 52 - f64_exponent x"
  define s :: rat where "s = 2 powi k"
  define m where "m = x * s"
  have b1: "(1::rat) \<le> of_int b" using b by simp
  have "x \<le> x * of_int b" using x b1 by (simp add: mult_le_cancel_left1)
  then have xa: "x \<le> of_int a" using ab by simp
  have "(of_int a :: rat) < of_int (2 ^ 52)" using a by (simp only: of_int_less_iff)
  then have xlt: "x < 2 ^ 53" using xa by simp
  from f64_exponent_ub [OF x xlt] have k: "0 \<le> k" by (simp add: k_def)
  then have s_int: "s = of_int (2 ^ nat k)" by (simp add: s_def power_int_def)
  have spos: "0 < s" by (simp add: s_int)
  have fr: "f64_round x = of_int (round_even m) / s"
    using x by (simp add: f64_round_def Let_def k_def s_def m_def)
  have "(2::rat) powi (f64_exponent x) * s = 2 powi 52"
    unfolding s_def k_def by (simp flip: power_int_add)
  then have es: "(2::rat) powi (f64_exponent x) * s = 2 ^ 52" by simp
  have "of_int b * (2 powi (f64_exponent x) * s) \<le> of_int b * (x * s)"
    using f64_exponent_le [OF x] spos b by (simp add: mult_le_cancel_left_pos)
  also have "\<dots> = of_int a * s" using ab by (simp add: mult.commute mult.left_commute)
  also have "\<dots> \<le> 2 ^ 52 * s" using a spos
    by (simp add: \<open>rat_of_int a < rat_of_int (2 ^ 52)\<close> less_imp_le)
  finally have bs: "of_int b \<le> s" unfolding es by simp
  { assume "x \<le> of_int n"
    then have "m \<le> of_int n * s" using spos by (simp add: m_def)
    then have "m \<le> of_int (n * 2 ^ nat k)" by (simp add: s_int)
    then have "\<lceil>m\<rceil> \<le> n * 2 ^ nat k" by (simp only: ceiling_le_iff)
    with round_even_ceiling [of m] have "round_even m \<le> n * 2 ^ nat k" by linarith
    then have "(of_int (round_even m) :: rat) \<le> of_int (n * 2 ^ nat k)" by (simp only: of_int_le_iff)
    then have "of_int (round_even m) \<le> of_int n * s" by (simp add: s_int)
    then show "f64_round x \<le> of_int n" using spos by (simp add: fr field_simps) }
  { assume "of_int n \<le> x"
    then have "of_int n * s \<le> m" using spos by (simp add: m_def)
    then have "of_int (n * 2 ^ nat k) \<le> m" by (simp add: s_int)
    then have "n * 2 ^ nat k \<le> \<lfloor>m\<rfloor>" by (simp only: le_floor_iff)
    with round_even_floor [of m] have "n * 2 ^ nat k \<le> round_even m" by linarith
    then have "(of_int (n * 2 ^ nat k) :: rat) \<le> of_int (round_even m)" by (simp only: of_int_le_iff)
    then have "of_int n * s \<le> of_int (round_even m)" by (simp add: s_int)
    then show "of_int n \<le> f64_round x" using spos by (simp add: fr field_simps) }
  { assume lt: "of_int n < x"
    have "(of_int (n * b) :: rat) < of_int a" using lt b ab by (simp flip: ab)
    then have "n * b + 1 \<le> a" by (simp only: of_int_less_iff)
    then have "(of_int (n * b + 1) :: rat) \<le> of_int a" by (simp only: of_int_le_iff)
    then have "of_int n * of_int b + 1 \<le> x * of_int b" by (simp add: ab)
    then have "(of_int n * of_int b + 1) * s \<le> x * of_int b * s"
      using spos by (simp only: mult_le_cancel_right_pos)
    then have "of_int n * s * of_int b + s \<le> m * of_int b"
      by (simp add: m_def algebra_simps)
    then have "of_int n * s * of_int b + of_int b \<le> m * of_int b"
      using bs by linarith
    then have "(of_int n * s + 1) * of_int b \<le> m * of_int b" by (simp add: algebra_simps)
    then have "of_int n * s + 1 \<le> m" using b by (simp only: mult_le_cancel_right_pos of_int_0_less_iff)
    then have "of_int (n * 2 ^ nat k + 1) \<le> m" by (simp add: s_int)
    then have "n * 2 ^ nat k + 1 \<le> \<lfloor>m\<rfloor>" by (simp only: le_floor_iff)
    with round_even_floor [of m] have "n * 2 ^ nat k < round_even m" by linarith
    then have "(of_int (n * 2 ^ nat k) :: rat) < of_int (round_even m)" by (simp only: of_int_less_iff)
    then have "of_int n * s < of_int (round_even m)" by (simp add: s_int)
    then show "of_int n < f64_round x" using spos by (simp add: fr field_simps) }
  { assume lt: "x < of_int n"
    have "(of_int a :: rat) < of_int (n * b)" using lt b ab by (simp flip: ab)
    then have "a + 1 \<le> n * b" by (simp only: of_int_less_iff)
    then have "(of_int (a + 1) :: rat) \<le> of_int (n * b)" by (simp only: of_int_le_iff)
    then have "x * of_int b + 1 \<le> of_int n * of_int b" by (simp add: ab)
    then have "(x * of_int b + 1) * s \<le> of_int n * of_int b * s"
      using spos by (simp only: mult_le_cancel_right_pos)
    then have "m * of_int b + s \<le> of_int n * s * of_int b"
      by (simp add: m_def algebra_simps)
    then have "m * of_int b + of_int b \<le> of_int n * s * of_int b"
      using bs by linarith
    then have "(m + 1) * of_int b \<le> (of_int n * s) * of_int b" by (simp add: algebra_simps)
    then have "m + 1 \<le> of_int n * s" using b by (simp only: mult_le_cancel_right_pos of_int_0_less_iff)
    then have "m \<le> of_int (n * 2 ^ nat k - 1)" by (simp add: s_int)
    then have "\<lceil>m\<rceil> \<le> n * 2 ^ nat k - 1" by (simp only: ceiling_le_iff)
    with round_even_ceiling [of m] have "round_even m < n * 2 ^ nat k" by linarith
    then have "(of_int (round_even m) :: rat) < of_int (n * 2 ^ nat k)" by (simp only: of_int_less_iff)
    then have "of_int (round_even m) < of_int n * s" by (simp add: s_int)
    then show "f64_round x < of_int n" using spos by (simp add: fr field_simps) }
qed


lemma f64_round_quot_pos:
  fixes a b :: int
  assumes a: "0 < a" "a < 2 ^ 52" and b: "0 < b"
  shows "\<lceil>f64_round (of_int a / of_int b)\<rceil> = \<lceil>of_int a / of_int b :: rat\<rceil>"
    and "\<lfloor>f64_round (of_int a / of_int b)\<rfloor> = \<lfloor>of_int a / of_int b :: rat\<rfloor>"
proof -
  define x :: rat where "x = of_int a / of_int b"
  have x: "0 < x" using a b by (simp add: x_def)
  have ab: "x * of_int b = of_int a" using b by (simp add: x_def)
  note bnd = f64_round_pos_bounds [OF x b(1) ab a(2)]
  have "of_int (\<lceil>x\<rceil> - 1) < x" by linarith
  then have "of_int (\<lceil>x\<rceil> - 1) < f64_round x" by (rule bnd(2))
  moreover have "f64_round x \<le> of_int \<lceil>x\<rceil>" by (rule bnd(1)) simp
  ultimately have "\<lceil>f64_round x\<rceil> = \<lceil>x\<rceil>" by (intro ceiling_unique) simp_all
  then show "\<lceil>f64_round (of_int a / of_int b)\<rceil> = \<lceil>of_int a / of_int b :: rat\<rceil>"
    by (simp add: x_def)
  have "x < of_int (\<lfloor>x\<rfloor> + 1)" by linarith
  then have "f64_round x < of_int (\<lfloor>x\<rfloor> + 1)" by (rule bnd(4))
  moreover have "of_int \<lfloor>x\<rfloor> \<le> f64_round x" by (rule bnd(3)) simp
  ultimately have "\<lfloor>f64_round x\<rfloor> = \<lfloor>x\<rfloor>" by (intro floor_unique) simp_all
  then show "\<lfloor>f64_round (of_int a / of_int b)\<rfloor> = \<lfloor>of_int a / of_int b :: rat\<rfloor>"
    by (simp add: x_def)
qed

lemma f64_round_quot_ceiling:
  fixes a b :: int
  assumes a: "\<bar>a\<bar> < 2 ^ 52" and b: "b \<noteq> 0"
  shows "\<lceil>f64_round (of_int a / of_int b)\<rceil> = \<lceil>of_int a / of_int b :: rat\<rceil>"
proof -
  consider "a = 0" | "0 < a" "0 < b" | "a < 0" "b < 0" | "0 < a" "b < 0" | "a < 0" "0 < b"
    using b by linarith
  then show ?thesis
  proof cases
    case 1 then show ?thesis by (simp add: f64_round_def)
  next
    case 2 then show ?thesis using a by (simp add: f64_round_quot_pos(1))
  next
    case 3
    then have "\<lceil>f64_round (of_int (- a) / of_int (- b))\<rceil> = \<lceil>of_int (- a) / of_int (- b) :: rat\<rceil>"
      using a by (intro f64_round_quot_pos(1)) simp_all
    then show ?thesis by simp
  next
    case 4
    then have "\<lfloor>f64_round (of_int a / of_int (- b))\<rfloor> = \<lfloor>of_int a / of_int (- b) :: rat\<rfloor>"
      using a by (intro f64_round_quot_pos(2)) simp_all
    then have "\<lfloor>f64_round (- (of_int a / of_int b))\<rfloor> = \<lfloor>- (of_int a / of_int b) :: rat\<rfloor>"
      by simp
    then show ?thesis by (simp add: f64_round_minus ceiling_def)
  next
    case 5
    then have "\<lfloor>f64_round (of_int (- a) / of_int b)\<rfloor> = \<lfloor>of_int (- a) / of_int b :: rat\<rfloor>"
      using a by (intro f64_round_quot_pos(2)) simp_all
    then have "\<lfloor>f64_round (- (of_int a / of_int b))\<rfloor> = \<lfloor>- (of_int a / of_int b) :: rat\<rfloor>"
      by simp
    then show ?thesis by (simp add: f64_round_minus ceiling_def)
  qed
qed

lemma trunc_rat_of_int [simp]: "trunc_rat (of_int n) = n"
  by (simp add: trunc_rat_def)

lemma sint_word_of_int32:
  "- (2 ^ 31) \<le> n \<Longrightarrow> n < 2 ^ 31 \<Longrightarrow> sint (word_of_int n :: int32) = n"
  by (simp add: sint_sbintrunc' signed_take_bit_int_eq_self)

text \<open>The quotient of two 32-bit integers, rounded up, as the autoscaler computes it.\<close>

lemma ceil_quot_exact:
  assumes "b \<noteq> 0" and "- (2 ^ 31) \<le> \<lceil>of_int (sint a) / of_int (sint b) :: rat\<rceil>"
    and "\<lceil>of_int (sint a) / of_int (sint b) :: rat\<rceil> < 2 ^ 31"
  shows "ceil_quot impl a b = word_of_int \<lceil>of_int (sint a) / of_int (sint b) :: rat\<rceil>"
proof -
  have b: "sint b \<noteq> 0" using assms(1) by (simp add: signed_eq_0_iff)
  have "- (2 ^ 31) \<le> sint a" "sint a < 2 ^ 31" using sint_ge [of a] sint_lt [of a] by simp_all
  then have a: "\<bar>sint a\<bar> < 2 ^ 52" by simp
  show ?thesis
    using b assms(2,3)
    by (simp add: ceil_quot_def float64_of_int32_def f64_round_quot_ceiling [OF a b]
          del: of_int_sint)
qed

lemma ceil_quot_pos:
  assumes "0 <s a" "0 <s b"
  shows "ceil_quot impl a b = word_of_int \<lceil>of_int (sint a) / of_int (sint b) :: rat\<rceil>"
    and "sint (ceil_quot impl a b) = \<lceil>of_int (sint a) / of_int (sint b) :: rat\<rceil>"
    and "0 < \<lceil>of_int (sint a) / of_int (sint b) :: rat\<rceil>"
    and "\<lceil>of_int (sint a) / of_int (sint b) :: rat\<rceil> \<le> sint a"
proof -
  let ?c = "\<lceil>of_int (sint a) / of_int (sint b) :: rat\<rceil>"
  have a: "0 < sint a" and b: "0 < sint b" using assms by (simp_all add: word_sless_alt)
  have alt: "sint a < 2 ^ 31" using sint_lt [of a] by simp
  have "(1::rat) \<le> of_int (sint b)" using b by (simp del: of_int_sint)
  then have "(of_int (sint a) / of_int (sint b) :: rat) \<le> of_int (sint a)"
    using a b by (simp add: field_simps mult_le_cancel_left1 del: of_int_sint)
  then show le: "?c \<le> sint a" by (simp only: ceiling_le_iff)
  have "(0::rat) < of_int (sint a) / of_int (sint b)" using a b by (simp del: of_int_sint)
  then show pos: "0 < ?c" by (simp only: zero_less_ceiling)
  have bne: "b \<noteq> 0" using b by auto
  have p: "(0::int) < 2 ^ 31" by simp
  have r1: "- (2 ^ 31) \<le> ?c" using pos p by linarith
  have r2: "?c < 2 ^ 31" using le alt by linarith
  show eq: "ceil_quot impl a b = word_of_int ?c"
    by (rule ceil_quot_exact [OF bne r1 r2])
  show "sint (ceil_quot impl a b) = ?c"
    unfolding eq by (rule sint_word_of_int32 [OF r1 r2])
qed

lemma ceil_quot_range:
  fixes a b :: int
  assumes b: "b \<noteq> 0" and a: "- (2 ^ 31) \<le> a" "a < 2 ^ 31"
    and nov: "\<not> (a = - (2 ^ 31) \<and> b = - 1)"
  shows "- (2 ^ 31) \<le> \<lceil>of_int a / of_int b :: rat\<rceil>"
    and "\<lceil>of_int a / of_int b :: rat\<rceil> < 2 ^ 31"
proof -
  define x :: rat where "x = of_int a / of_int b"
  have b1: "(1::rat) \<le> \<bar>of_int b\<bar>" using b by (simp flip: of_int_abs)
  have "\<bar>x\<bar> = \<bar>of_int a\<bar> / \<bar>of_int b\<bar>" by (simp add: x_def)
  also have "\<dots> \<le> \<bar>of_int a\<bar>" using b1 by (simp add: field_simps mult_le_cancel_left1)
  finally have xa: "\<bar>x\<bar> \<le> of_int \<bar>a\<bar>" by simp
  have "\<bar>a\<bar> \<le> 2 ^ 31" using a by simp
  then have "(of_int \<bar>a\<bar> :: rat) \<le> of_int (2 ^ 31)" by (simp only: of_int_le_iff)
  with xa have x31: "\<bar>x\<bar> \<le> 2 ^ 31" by simp
  then have "of_int (- (2 ^ 31)) \<le> x" by simp
  then have "of_int (- (2 ^ 31)) \<le> (of_int \<lceil>x\<rceil> :: rat)" using le_of_int_ceiling [of x] by linarith
  then have "- (2 ^ 31) \<le> \<lceil>x\<rceil>" by (simp only: of_int_le_iff)
  then show "- (2 ^ 31) \<le> \<lceil>of_int a / of_int b :: rat\<rceil>" by (simp add: x_def)
  have "x \<le> of_int (2 ^ 31 - 1)"
  proof (cases "b = 1 \<or> b = - 1")
    case True
    then show ?thesis
    proof
      assume "b = 1"
      then have "x = of_int a" by (simp add: x_def)
      moreover have "a \<le> 2 ^ 31 - 1" using a by simp
      then have "(of_int a :: rat) \<le> of_int (2 ^ 31 - 1)" by (simp only: of_int_le_iff)
      ultimately show ?thesis by simp
    next
      assume bm: "b = - 1"
      then have "x = of_int (- a)" by (simp add: x_def)
      moreover have "- a \<le> 2 ^ 31 - 1" using a nov bm by simp
      then have "(of_int (- a) :: rat) \<le> of_int (2 ^ 31 - 1)" by (simp only: of_int_le_iff)
      ultimately show ?thesis by simp
    qed
  next
    case False
    then have "2 \<le> \<bar>b\<bar>" using b by linarith
    then have b2: "(2::rat) \<le> \<bar>of_int b\<bar>" by (simp flip: of_int_abs)
    have "\<bar>x\<bar> = \<bar>of_int a\<bar> / \<bar>of_int b\<bar>" by (simp add: x_def)
    also have "\<dots> \<le> \<bar>of_int a\<bar> / 2" using b2 by (intro frac_le) simp_all
    also have "\<dots> \<le> 2 ^ 31 / 2"
      using \<open>(of_int \<bar>a\<bar> :: rat) \<le> of_int (2 ^ 31)\<close> by simp
    finally show ?thesis by simp
  qed
  then have "\<lceil>x\<rceil> \<le> 2 ^ 31 - 1" by (simp only: ceiling_le_iff)
  then show "\<lceil>of_int a / of_int b :: rat\<rceil> < 2 ^ 31" by (simp add: x_def)
qed

lemma ceil_quot_signed:
  assumes "b \<noteq> 0" and "\<not> (sint a = - (2 ^ 31) \<and> sint b = - 1)"
  shows "sint (ceil_quot impl a b) = \<lceil>of_int (sint a) / of_int (sint b) :: rat\<rceil>"
proof -
  have b: "sint b \<noteq> 0" using assms(1) by (simp add: signed_eq_0_iff)
  have a: "- (2 ^ 31) \<le> sint a" "sint a < 2 ^ 31" using sint_ge [of a] sint_lt [of a] by simp_all
  note r = ceil_quot_range [OF b a assms(2)]
  show ?thesis
    unfolding ceil_quot_exact [OF assms(1) r] by (rule sint_word_of_int32 [OF r])
qed

lemma ceil_quot_35_10: "ceil_quot impl 35 10 = 4"
  by code_simp

lemma ceil_multiple_pos:
  assumes m: "0 <s m" and f: "0 <s f"
    and fit: "\<lceil>of_int (sint m) / of_int (sint f) :: rat\<rceil> * sint f < 2 ^ 31"
  shows "sint (ceil_multiple impl m f) = \<lceil>of_int (sint m) / of_int (sint f) :: rat\<rceil> * sint f"
    and "0 < \<lceil>of_int (sint m) / of_int (sint f) :: rat\<rceil>"
proof -
  let ?c = "\<lceil>of_int (sint m) / of_int (sint f) :: rat\<rceil>"
  have M: "0 < sint m" and F: "0 < sint f" using m f by (simp_all add: word_sless_alt)
  have "sint m < 2 ^ 31" using sint_lt [of m] by simp
  then have M52: "\<bar>sint m\<bar> < 2 ^ 52" using M by simp
  have Fne: "sint f \<noteq> 0" using F by simp
  have "(0::rat) < of_int (sint m) / of_int (sint f)" using M F by (simp del: of_int_sint)
  then show c: "0 < ?c" by (simp only: zero_less_ceiling)
  then have pos: "0 < ?c * sint f" using F by simp
  have p31: "(0::int) < 2 ^ 31" by simp
  have r1: "- (2 ^ 31) \<le> ?c * sint f" using pos p31 by linarith
  have "\<bar>?c * sint f\<bar> < 2 ^ 31" using pos fit by linarith
  then have "\<bar>?c * sint f\<bar> < 2 ^ 53" by simp
  from f64_round_of_int [OF this]
  have mul: "f64_round (of_int ?c * of_int (sint f)) = of_int (?c * sint f)"
    by (simp only: of_int_mult)
  have "ceil_multiple impl m f = int32_of_float64 impl (Fin (of_int (?c * sint f)))"
    using Fne by (simp add: ceil_multiple_def float64_of_int32_def
        f64_round_quot_ceiling [OF M52 Fne] mul del: of_int_sint of_int_mult)
  also have "\<dots> = word_of_int (?c * sint f)"
    using r1 fit by (simp del: of_int_sint of_int_mult)
  finally show "sint (ceil_multiple impl m f) = ?c * sint f"
    by (simp only: sint_word_of_int32 [OF r1 fit])
qed

section \<open>Policy names\<close>

lemma contains_priorities: "contains [] priors name \<longleftrightarrow> name \<in> PrioName ` set priors"
  by (induction priors) auto

lemma contains_predicates: "contains preds [] name \<longleftrightarrow> name \<in> PredName ` set preds"
  by (induction preds) auto

section \<open>The least positive free capacity\<close>

lemma minNonZeroInt_loop_le: "minNonZeroInt_loop m vs \<le>s m"
proof (induction vs arbitrary: m)
  case Nil then show ?case by simp
next
  case (Cons v vs)
  have "minNonZeroInt_loop (if v <s m \<and> 0 <s v then v else m) vs
          \<le>s (if v <s m \<and> 0 <s v then v else m)"
    by (rule Cons.IH)
  then show ?case by (auto simp: word_sle_eq word_sless_alt)
qed

lemma minNonZeroInt_loop_lower:
  "v \<in> set vs \<Longrightarrow> 0 <s v \<Longrightarrow> minNonZeroInt_loop m vs \<le>s v"
proof (induction vs arbitrary: m)
  case Nil then show ?case by simp
next
  case (Cons w vs)
  show ?case
  proof (cases "v = w")
    case True
    have "minNonZeroInt_loop (if w <s m \<and> 0 <s w then w else m) vs
            \<le>s (if w <s m \<and> 0 <s w then w else m)"
      by (rule minNonZeroInt_loop_le)
    then show ?thesis using True Cons.prems by (auto simp: word_sle_eq word_sless_alt split: if_splits)
  next
    case False
    then have "v \<in> set vs" using Cons.prems by simp
    then show ?thesis using Cons.IH Cons.prems by simp
  qed
qed

lemma minNonZeroInt_loop_mem:
  "minNonZeroInt_loop m vs = m \<or> (minNonZeroInt_loop m vs \<in> set vs \<and> 0 <s minNonZeroInt_loop m vs)"
proof (induction vs arbitrary: m)
  case Nil then show ?case by simp
next
  case (Cons v vs)
  from Cons.IH [of "if v <s m \<and> 0 <s v then v else m"] show ?case by auto
qed

lemma minNonZeroInt_loop_pos: "0 <s m \<Longrightarrow> 0 <s minNonZeroInt_loop m vs"
  using minNonZeroInt_loop_mem [of m vs] by auto

lemma perPod_pos: "0 <s capacity a \<Longrightarrow> 0 <s perPod a s"
  by (simp add: perPod_def minNonZeroInt_def minNonZeroInt_loop_pos)

section \<open>Leader gate\<close>

text \<open>
  C4: when the leader flag is false, \<open>doautoscale\<close> returns success at once, for every
  input and every \<open>attemptScaleDown\<close>: the autoscaler is unchanged and no collaborator
  is called (the state is not read, neither \<open>GetScale\<close> nor \<open>UpdateScale\<close> is called, the
  evictor is not invoked).
\<close>

theorem leader_gate:
  "\<not> isLeader a \<Longrightarrow> doautoscale env a attemptScaleDown = (None, a, [])"
  by (simp add: doautoscale_def)

theorem leader_gate_witness:
  "\<not> isLeader (exampleAutoscaler\<lparr>isLeader := False\<rparr>)
   \<and> doautoscale (exampleEnv growState 2 0) (exampleAutoscaler\<lparr>isLeader := False\<rparr>) True
       = (None, exampleAutoscaler\<lparr>isLeader := False\<rparr>, [])"
  using leader_gate [of "exampleAutoscaler\<lparr>isLeader := False\<rparr>" "exampleEnv growState 2 0" True]
  by simp

text \<open>
  C10: \<open>Promote\<close> always returns nil. With a bucket that does not hold the key
  \<open>knative-eventing/autoscaler-ephemeral\<close>, \<open>Promote\<close> and \<open>Demote\<close> leave the
  autoscaler, and so its leader flag, as it was; whenever either changes the flag, the
  bucket holds the key.
\<close>

theorem promote_demote_frame:
  "snd (Promote a b) = None
   \<and> (\<not> b ephemeralLeaderElectionObject \<longrightarrow> fst (Promote a b) = a \<and> Demote a b = a)
   \<and> (isLeader (fst (Promote a b)) \<noteq> isLeader a \<longrightarrow> b ephemeralLeaderElectionObject)
   \<and> (isLeader (Demote a b) \<noteq> isLeader a \<longrightarrow> b ephemeralLeaderElectionObject)"
  by (simp add: Promote_def Demote_def)

theorem promote_demote_frame_witness:
  "\<not> (\<lambda>k. Name k = ''other'') ephemeralLeaderElectionObject
   \<and> fst (Promote exampleAutoscaler (\<lambda>k. Name k = ''other'')) = exampleAutoscaler
   \<and> Demote exampleAutoscaler (\<lambda>k. Name k = ''other'') = exampleAutoscaler
   \<and> isLeader (Demote exampleAutoscaler (\<lambda>k. Namespace k = ''knative-eventing''))
        \<noteq> isLeader exampleAutoscaler
   \<and> (\<lambda>k. Namespace k = ''knative-eventing'') ephemeralLeaderElectionObject
   \<and> isLeader (fst (Promote (exampleAutoscaler\<lparr>isLeader := False\<rparr>)
                       (\<lambda>k. Namespace k = ''knative-eventing'')))
        \<noteq> isLeader (exampleAutoscaler\<lparr>isLeader := False\<rparr>)"
  using promote_demote_frame [of exampleAutoscaler "\<lambda>k. Name k = ''other''"]
    promote_demote_frame [of exampleAutoscaler "\<lambda>k. Namespace k = ''knative-eventing''"]
    promote_demote_frame [of "exampleAutoscaler\<lparr>isLeader := False\<rparr>" "\<lambda>k. Namespace k = ''knative-eventing''"]
  by (simp add: ephemeralLeaderElectionObject_def exampleAutoscaler_def Promote_def Demote_def)

section \<open>The scale-up factor\<close>

text \<open>
  C1, as stated, fails: with both availability priorities in the policy, three zones and
  five nodes, the factor is the number of nodes, not the number of zones.
\<close>

theorem zone_dominates_counterexample:
  "SchedPolicy zoneNodeState \<noteq> None
   \<and> contains [] (Priorities (the (SchedPolicy zoneNodeState))) AvailabilityZonePriority
   \<and> contains [] (Priorities (the (SchedPolicy zoneNodeState))) AvailabilityNodePriority
   \<and> scaleUpFactor zoneNodeState \<noteq> NumZones zoneNodeState
   \<and> scaleUpFactor zoneNodeState = NumNodes zoneNodeState"
  by (simp add: zoneNodeState_def scaleUpFactor_def AvailabilityZonePriority_def
      AvailabilityNodePriority_def)

text \<open>
  C1, amended: the node priority dominates the zone priority. The factor is
  \<open>NumNodes\<close> whenever the policy lists \<open>AvailabilityNodePriority\<close>; it is
  \<open>NumZones\<close> when the policy lists \<open>AvailabilityZonePriority\<close> and not the node
  priority; it is 1 when the policy lists neither or is nil.
\<close>

theorem node_dominates:
  "(SchedPolicy state = None \<longrightarrow> scaleUpFactor state = 1)
   \<and> (\<forall>p. SchedPolicy state = Some p \<longrightarrow>
        (AvailabilityNodePriority \<in> PrioName ` set (Priorities p)
           \<longrightarrow> scaleUpFactor state = NumNodes state)
        \<and> (AvailabilityNodePriority \<notin> PrioName ` set (Priorities p)
            \<and> AvailabilityZonePriority \<in> PrioName ` set (Priorities p)
           \<longrightarrow> scaleUpFactor state = NumZones state)
        \<and> (AvailabilityNodePriority \<notin> PrioName ` set (Priorities p)
            \<and> AvailabilityZonePriority \<notin> PrioName ` set (Priorities p)
           \<longrightarrow> scaleUpFactor state = 1))"
  by (simp add: scaleUpFactor_def contains_priorities)

theorem node_dominates_witness:
  "SchedPolicy growState = None \<and> scaleUpFactor growState = 1
   \<and> AvailabilityNodePriority \<in> PrioName ` set (Priorities (the (SchedPolicy zoneNodeState)))
   \<and> scaleUpFactor zoneNodeState = 5
   \<and> AvailabilityNodePriority \<notin> PrioName ` set (Priorities (the (SchedPolicy zoneState)))
   \<and> AvailabilityZonePriority \<in> PrioName ` set (Priorities (the (SchedPolicy zoneState)))
   \<and> scaleUpFactor zoneState = 3
   \<and> scaleUpFactor (zoneState\<lparr>SchedPolicy := Some \<lparr>Predicates = [], Priorities = []\<rparr>\<rparr>) = 1"
  using node_dominates [of growState] node_dominates [of zoneNodeState] node_dominates [of zoneState]
    node_dominates [of "zoneState\<lparr>SchedPolicy := Some \<lparr>Predicates = [], Priorities = []\<rparr>\<rparr>"]
  by (simp add: growState_def zoneNodeState_def zoneState_def AvailabilityZonePriority_def
      AvailabilityNodePriority_def)

section \<open>Trigger\<close>

text \<open>
  C8, as stated, fails: \<open>Autoscale\<close> sends on the channel without a default case, so
  with the slot full the caller blocks; the post is not dropped.
\<close>

theorem autoscale_blocks_counterexample:
  "Autoscale (exampleAutoscaler\<lparr>trigger := [()]\<rparr>) = None"
  by (simp add: Autoscale_def chan_send_def trigger_cap_def exampleAutoscaler_def)

text \<open>
  C8, amended: \<open>Autoscale\<close> returns, having filled the slot, exactly when the slot was
  empty; with the slot full it blocks until the driver loop has taken the pending value.
  The slot never holds more than one value.
\<close>

theorem autoscale_blocking_send:
  "(trigger a = [] \<longrightarrow> Autoscale a = Some (a\<lparr>trigger := [()]\<rparr>))
   \<and> (trigger a \<noteq> [] \<longrightarrow> Autoscale a = None)
   \<and> (\<forall>a'. Autoscale a = Some a' \<longrightarrow> length (trigger a') = 1)"
  by (cases "trigger a") (auto simp: Autoscale_def chan_send_def trigger_cap_def)

theorem autoscale_blocking_send_witness:
  "trigger exampleAutoscaler = []
   \<and> Autoscale exampleAutoscaler = Some (exampleAutoscaler\<lparr>trigger := [()]\<rparr>)
   \<and> trigger (exampleAutoscaler\<lparr>trigger := [()]\<rparr>) \<noteq> []
   \<and> Autoscale (exampleAutoscaler\<lparr>trigger := [()]\<rparr>) = None
   \<and> length (trigger (exampleAutoscaler\<lparr>trigger := [()]\<rparr>)) = 1"
  using autoscale_blocking_send [of exampleAutoscaler]
    autoscale_blocking_send [of "exampleAutoscaler\<lparr>trigger := [()]\<rparr>"]
  by (simp add: exampleAutoscaler_def)

text \<open>Once the driver loop has received the pending value, \<open>Autoscale\<close> returns again.\<close>

lemma autoscale_after_receive:
  "length (trigger a) \<le> trigger_cap \<Longrightarrow> chan_recv (trigger a) = Some (x, buf)
   \<Longrightarrow> Autoscale (a\<lparr>trigger := buf\<rparr>) = Some (a\<lparr>trigger := [()]\<rparr>)"
  by (cases "trigger a") (simp_all add: Autoscale_def chan_send_def trigger_cap_def)

section \<open>Sizing under MAXFILLUP\<close>

text \<open>
  C3, as stated, fails: under \<open>MAXFILLUP\<close> with capacity 10 and 35 expected virtual
  replicas the quotient rounded up is 4, but on a trigger wake with 9 replicas the
  scale-down gate makes the desired count of the pass 9, and nothing is written.
\<close>

theorem maxfillup_gate_counterexample:
  "SchedulerPolicy growState = MAXFILLUP
   \<and> sint (TotalExpectedVReplicas growState) = 35 \<and> sint (Capacity growState) = 10
   \<and> \<lceil>35 / 10 :: rat\<rceil> = 4
   \<and> sint (desiredReplicas (floatImpl (exampleEnv growState 9 0)) exampleAutoscaler growState 9 False)
       = 9
   \<and> doautoscale (exampleEnv growState 9 0) exampleAutoscaler False
       = (None, exampleAutoscaler, [IO_State, IO_GetScale])"
proof -
  have "SchedulerPolicy growState = MAXFILLUP"
    "sint (TotalExpectedVReplicas growState) = 35" "sint (Capacity growState) = 10"
    "sint (desiredReplicas (floatImpl (exampleEnv growState 9 0)) exampleAutoscaler growState 9 False)
       = 9"
    "doautoscale (exampleEnv growState 9 0) exampleAutoscaler False
       = (None, exampleAutoscaler, [IO_State, IO_GetScale])"
    by code_simp+
  moreover have "\<lceil>35 / 10 :: rat\<rceil> = 4"
    using ceiling_divide_eq_div [of 35 10, where ?'a = rat] by simp
  ultimately show ?thesis by simp
qed

text \<open>
  C3, amended: under \<open>MAXFILLUP\<close> the sizing step of \<open>doautoscale\<close> computes the
  quotient of \<open>TotalExpectedVReplicas\<close> by \<open>Capacity\<close>, rounded up: the rounding of
  the division in \<open>float64\<close> does not change the result. (The quotient exists when
  \<open>Capacity\<close> is not zero, and fits \<open>int32\<close> except for the least \<open>int32\<close> divided by
  \<open>-1\<close>.) The desired count of the pass is this quotient on a scale-down tick, and off
  a tick when it is not below the current replica count; then the leader writes it if it
  differs from the current count. Off a tick with the quotient below the current count,
  the desired count is the current one and nothing is written. With capacity 10, 35
  expected virtual replicas and 2 replicas, the leader writes 4 on a scale-down tick and
  calls nothing else: no eviction.
\<close>

theorem maxfillup_desired:
  assumes "SchedulerPolicy s = MAXFILLUP"
  shows "(Capacity s \<noteq> 0
          \<and> \<not> (sint (TotalExpectedVReplicas s) = - (2 ^ 31) \<and> sint (Capacity s) = - 1)
         \<longrightarrow> sint (sizeReplicas impl a s)
               = \<lceil>of_int (sint (TotalExpectedVReplicas s)) / of_int (sint (Capacity s)) :: rat\<rceil>
             \<and> sint (desiredReplicas impl a s replicas attemptScaleDown)
               = (if \<not> attemptScaleDown
                     \<and> \<lceil>of_int (sint (TotalExpectedVReplicas s)) / of_int (sint (Capacity s)) :: rat\<rceil>
                         < sint replicas
                  then sint replicas
                  else \<lceil>of_int (sint (TotalExpectedVReplicas s)) / of_int (sint (Capacity s)) :: rat\<rceil>)
             \<and> (isLeader a \<and> stateAccessor env = Inr s \<and> GetScale env = Inr replicas
                 \<and> (attemptScaleDown
                     \<or> sint replicas
                         \<le> \<lceil>of_int (sint (TotalExpectedVReplicas s)) / of_int (sint (Capacity s)) :: rat\<rceil>)
                 \<and> \<lceil>of_int (sint (TotalExpectedVReplicas s)) / of_int (sint (Capacity s)) :: rat\<rceil>
                     \<noteq> sint replicas
                \<longrightarrow> sint (sizeReplicas (floatImpl env) a s)
                      = \<lceil>of_int (sint (TotalExpectedVReplicas s)) / of_int (sint (Capacity s)) :: rat\<rceil>
                    \<and> doautoscale env a attemptScaleDown
                      = (UpdateScale env (sizeReplicas (floatImpl env) a s), a,
                         [IO_State, IO_GetScale,
                          IO_UpdateScale (sizeReplicas (floatImpl env) a s)]))
             \<and> (isLeader a \<and> stateAccessor env = Inr s \<and> GetScale env = Inr replicas
                 \<and> \<not> attemptScaleDown
                 \<and> \<lceil>of_int (sint (TotalExpectedVReplicas s)) / of_int (sint (Capacity s)) :: rat\<rceil>
                     < sint replicas
                \<longrightarrow> doautoscale env a attemptScaleDown = (None, a, [IO_State, IO_GetScale])))
       \<and> (Capacity s = 10 \<and> TotalExpectedVReplicas s = 35 \<and> isLeader a
          \<and> stateAccessor env = Inr s \<and> GetScale env = Inr 2
         \<longrightarrow> doautoscale env a True
               = (UpdateScale env 4, a, [IO_State, IO_GetScale, IO_UpdateScale 4]))"
proof -
  let ?c = "\<lceil>of_int (sint (TotalExpectedVReplicas s)) / of_int (sint (Capacity s)) :: rat\<rceil>"
  have scenario: "doautoscale env a True
               = (UpdateScale env 4, a, [IO_State, IO_GetScale, IO_UpdateScale 4])"
    if "Capacity s = 10" "TotalExpectedVReplicas s = 35" "isLeader a"
      "stateAccessor env = Inr s" "GetScale env = Inr 2"
    using assms that
    by (simp add: sizeReplicas_def doautoscale_def desiredReplicas_def ceil_quot_35_10)
  have general: "sint (sizeReplicas impl a s) = ?c
      \<and> sint (desiredReplicas impl a s replicas attemptScaleDown)
          = (if \<not> attemptScaleDown \<and> ?c < sint replicas then sint replicas else ?c)
      \<and> (isLeader a \<and> stateAccessor env = Inr s \<and> GetScale env = Inr replicas
           \<and> (attemptScaleDown \<or> sint replicas \<le> ?c) \<and> ?c \<noteq> sint replicas
          \<longrightarrow> sint (sizeReplicas (floatImpl env) a s) = ?c
              \<and> doautoscale env a attemptScaleDown
                = (UpdateScale env (sizeReplicas (floatImpl env) a s), a,
                   [IO_State, IO_GetScale, IO_UpdateScale (sizeReplicas (floatImpl env) a s)]))
      \<and> (isLeader a \<and> stateAccessor env = Inr s \<and> GetScale env = Inr replicas
           \<and> \<not> attemptScaleDown \<and> ?c < sint replicas
          \<longrightarrow> doautoscale env a attemptScaleDown = (None, a, [IO_State, IO_GetScale]))"
    if ok: "Capacity s \<noteq> 0"
      "\<not> (sint (TotalExpectedVReplicas s) = - (2 ^ 31) \<and> sint (Capacity s) = - 1)"
  proof -
    have size: "sint (sizeReplicas i a s) = ?c" for i
      using assms by (simp add: sizeReplicas_def ceil_quot_signed [OF ok] del: of_int_sint)
    have lt: "sizeReplicas i a s <s replicas \<longleftrightarrow> ?c < sint replicas" for i
      by (simp only: word_sless_alt size)
    have ne: "sizeReplicas i a s \<noteq> replicas \<longleftrightarrow> ?c \<noteq> sint replicas" for i
      using size [of i] by (auto simp: word_eq_iff_signed [where ?'a = int])
    have desired: "sint (desiredReplicas impl a s replicas attemptScaleDown)
          = (if \<not> attemptScaleDown \<and> ?c < sint replicas then sint replicas else ?c)"
      by (simp add: desiredReplicas_def Let_def lt size del: of_int_sint)
    have upd: "doautoscale env a attemptScaleDown
                = (UpdateScale env (sizeReplicas (floatImpl env) a s), a,
                   [IO_State, IO_GetScale, IO_UpdateScale (sizeReplicas (floatImpl env) a s)])"
      if "isLeader a" "stateAccessor env = Inr s" "GetScale env = Inr replicas"
        "attemptScaleDown \<or> sint replicas \<le> ?c" "?c \<noteq> sint replicas"
    proof -
      have "\<not> (\<not> attemptScaleDown \<and> sizeReplicas (floatImpl env) a s <s replicas)"
        using that(4) unfolding lt by linarith
      then have "desiredReplicas (floatImpl env) a s replicas attemptScaleDown
          = sizeReplicas (floatImpl env) a s"
        by (auto simp: desiredReplicas_def Let_def)
      moreover have "sizeReplicas (floatImpl env) a s \<noteq> replicas"
        using that(5) unfolding ne .
      ultimately show ?thesis
        using that(1,2,3) by (simp add: doautoscale_def Let_def)
    qed
    have idle: "doautoscale env a attemptScaleDown = (None, a, [IO_State, IO_GetScale])"
      if "isLeader a" "stateAccessor env = Inr s" "GetScale env = Inr replicas"
        "\<not> attemptScaleDown" "?c < sint replicas"
    proof -
      have "desiredReplicas (floatImpl env) a s replicas attemptScaleDown = replicas"
        using that(4,5) by (simp add: desiredReplicas_def Let_def lt)
      then show ?thesis
        using that(1,2,3,4) by (simp add: doautoscale_def Let_def)
    qed
    show ?thesis using size desired upd idle by blast
  qed
  show ?thesis using scenario general by blast
qed

theorem maxfillup_desired_witness:
  "SchedulerPolicy growState = MAXFILLUP \<and> Capacity growState \<noteq> 0
   \<and> sint (sizeReplicas (\<lambda>_. 0) exampleAutoscaler growState) = 4
   \<and> sint (desiredReplicas (\<lambda>_. 0) exampleAutoscaler growState 9 False) = 9
   \<and> sint (desiredReplicas (\<lambda>_. 0) exampleAutoscaler growState 9 True) = 4
   \<and> doautoscale (exampleEnv growState 9 0) exampleAutoscaler False
       = (None, exampleAutoscaler, [IO_State, IO_GetScale])
   \<and> doautoscale (exampleEnv growState 2 0) exampleAutoscaler True
       = (None, exampleAutoscaler, [IO_State, IO_GetScale, IO_UpdateScale 4])"
proof -
  have c: "\<lceil>35 / 10 :: rat\<rceil> = 4"
    using ceiling_divide_eq_div [of 35 10, where ?'a = rat] by simp
  show ?thesis
    using c
      maxfillup_desired [of growState "\<lambda>_. 0" exampleAutoscaler 9 False "exampleEnv growState 9 0"]
      maxfillup_desired [of growState "\<lambda>_. 0" exampleAutoscaler 9 True "exampleEnv growState 2 0"]
    by (simp add: growState_def exampleEnv_def exampleAutoscaler_def del: of_int_sint)
qed

section \<open>Sizing under POLICY_BASED\<close>

text \<open>
  C6: under \<open>POLICY_BASED\<close> with pending replicas, the predicate \<open>EvenPodSpread\<close> and
  a non-empty \<open>FreeCap\<close>, the divisor of the pending replicas in \<open>minNumPods\<close> is the
  least strictly positive element of \<open>FreeCap\<close>, and the autoscaler's capacity when
  \<open>FreeCap\<close> has no strictly positive element. As in the data model, no pod has more
  free places than the capacity.
\<close>

theorem per_pod_divisor:
  assumes "SchedulerPolicy s = POLICY_BASED" and "0 <s TotalPending s"
    and "SchedPolicy s = Some p" and "EvenPodSpread \<in> PredName ` set (Predicates p)"
    and "FreeCap s \<noteq> []" and "\<forall>v \<in> set (FreeCap s). v \<le>s capacity a"
  shows "sizeReplicas impl a s =
           (let n = LastOrdinal s + 1
                      + ceil_multiple impl (ceil_quot impl (TotalPending s) (perPod a s))
                          (scaleUpFactor s)
            in if n \<le>s LastOrdinal s then LastOrdinal s + scaleUpFactor s else n)
         \<and> ((\<exists>v \<in> set (FreeCap s). 0 <s v) \<longrightarrow>
              perPod a s \<in> set (FreeCap s) \<and> 0 <s perPod a s
              \<and> (\<forall>v \<in> set (FreeCap s). 0 <s v \<longrightarrow> perPod a s \<le>s v))
         \<and> ((\<forall>v \<in> set (FreeCap s). \<not> 0 <s v) \<longrightarrow> perPod a s = capacity a)"
proof -
  let ?d = "minNonZeroInt_loop (capacity a) (FreeCap s)"
  have d: "perPod a s = ?d"
    using assms(3,4,5) by (simp add: perPod_def minNonZeroInt_def contains_predicates)
  have size: "sizeReplicas impl a s =
           (let n = LastOrdinal s + 1
                      + ceil_multiple impl (ceil_quot impl (TotalPending s) (perPod a s))
                          (scaleUpFactor s)
            in if n \<le>s LastOrdinal s then LastOrdinal s + scaleUpFactor s else n)"
    using assms(1,2) by (simp add: sizeReplicas_def Let_def)
  have low: "\<forall>v \<in> set (FreeCap s). 0 <s v \<longrightarrow> ?d \<le>s v"
    by (simp add: minNonZeroInt_loop_lower)
  have some: "?d \<in> set (FreeCap s) \<and> 0 <s ?d" if "\<exists>v \<in> set (FreeCap s). 0 <s v"
  proof -
    from that obtain v where v: "v \<in> set (FreeCap s)" "0 <s v" by blast
    from minNonZeroInt_loop_mem [of "capacity a" "FreeCap s"] show ?thesis
    proof
      assume eq: "?d = capacity a"
      have "?d \<le>s v" using low v by blast
      moreover have "v \<le>s capacity a" using assms(6) v by blast
      ultimately have "sint v = sint ?d" using eq by (simp add: word_sle_eq)
      then have "v = ?d" by (simp add: word_eq_iff_signed [where ?'a = int])
      then show ?thesis using v by simp
    qed simp
  qed
  have none: "?d = capacity a" if "\<forall>v \<in> set (FreeCap s). \<not> 0 <s v"
    using that minNonZeroInt_loop_mem [of "capacity a" "FreeCap s"] by blast
  show ?thesis using size some none low unfolding d by blast
qed

theorem per_pod_divisor_witness:
  "SchedulerPolicy spreadState = POLICY_BASED \<and> 0 <s TotalPending spreadState
   \<and> SchedPolicy spreadState = Some \<lparr>Predicates = [\<lparr>PredName = EvenPodSpread\<rparr>], Priorities = []\<rparr>
   \<and> FreeCap spreadState = [0, 2, 5] \<and> capacity exampleAutoscaler = 10
   \<and> perPod exampleAutoscaler spreadState = 2
   \<and> sizeReplicas (\<lambda>_. 0) exampleAutoscaler spreadState = 6
   \<and> perPod exampleAutoscaler (spreadState\<lparr>FreeCap := [0, 0]\<rparr>) = 10"
proof -
  let ?p = "\<lparr>Predicates = [\<lparr>PredName = EvenPodSpread\<rparr>], Priorities = []\<rparr>"
  have h: "SchedulerPolicy spreadState = POLICY_BASED" "0 <s TotalPending spreadState"
    "SchedPolicy spreadState = Some ?p" "EvenPodSpread \<in> PredName ` set (Predicates ?p)"
    "FreeCap spreadState \<noteq> []" "\<forall>v \<in> set (FreeCap spreadState). v \<le>s capacity exampleAutoscaler"
    by (simp_all add: spreadState_def exampleAutoscaler_def word_sless_alt word_sle_eq)
  let ?s = "spreadState\<lparr>FreeCap := [0, 0]\<rparr>"
  have h': "SchedulerPolicy ?s = POLICY_BASED" "0 <s TotalPending ?s"
    "SchedPolicy ?s = Some ?p" "EvenPodSpread \<in> PredName ` set (Predicates ?p)"
    "FreeCap ?s \<noteq> []" "\<forall>v \<in> set (FreeCap ?s). v \<le>s capacity exampleAutoscaler"
    by (simp_all add: spreadState_def exampleAutoscaler_def word_sless_alt word_sle_eq)
  have pos: "\<exists>v \<in> set (FreeCap spreadState). 0 <s v"
    by (simp add: spreadState_def word_sless_alt)
  have none: "\<forall>v \<in> set (FreeCap ?s). \<not> 0 <s v" by (simp add: word_sless_alt)
  have two: "perPod exampleAutoscaler spreadState = 2"
    using per_pod_divisor [OF h, of "\<lambda>_. 0"] pos
    by (auto simp: spreadState_def word_sless_alt word_sle_eq)
  have six: "sizeReplicas (\<lambda>_. 0) exampleAutoscaler spreadState = 6"
    by code_simp
  show ?thesis
    using h pos none two six per_pod_divisor [OF h', of "\<lambda>_. 0"]
    by (simp add: exampleAutoscaler_def spreadState_def)
qed

text \<open>
  C5, as stated, fails: with three zones, last ordinal 2, seven pending replicas and
  capacity 10 the sizing gives 6, but on a trigger wake with 7 replicas the scale-down
  gate keeps 7, and 7 - 3 is no multiple of 3.
\<close>

theorem ha_unit_gate_counterexample:
  "SchedulerPolicy zoneState = POLICY_BASED \<and> 0 <s TotalPending zoneState
   \<and> 1 <s scaleUpFactor zoneState \<and> sint (scaleUpFactor zoneState) = 3
   \<and> sint (LastOrdinal zoneState) + 1 = 3
   \<and> sint (desiredReplicas (\<lambda>_. 0) exampleAutoscaler zoneState 7 False) = 7
   \<and> \<not> (3::int) dvd 7 - 3"
proof -
  have "SchedulerPolicy zoneState = POLICY_BASED" "0 <s TotalPending zoneState"
    "1 <s scaleUpFactor zoneState" "sint (scaleUpFactor zoneState) = 3"
    "sint (LastOrdinal zoneState) + 1 = 3"
    "sint (desiredReplicas (\<lambda>_. 0) exampleAutoscaler zoneState 7 False) = 7"
    by code_simp+
  then show ?thesis by simp
qed

text \<open>
  C5, amended: under \<open>POLICY_BASED\<close> with pending replicas, a scale-up factor above 1,
  a positive capacity and a last ordinal of at least -1, and as long as the sum fits
  \<open>int32\<close>, the count that the sizing step computes exceeds \<open>LastOrdinal + 1\<close> by a
  positive multiple of the scale-up factor, namely by the spec's number of HA units times
  the factor: rounding in \<open>float64\<close> changes neither ceiling. This is the count the
  pass produces whenever the scale-down gate does not put the current replica count in
  its place, that is on a scale-down tick or when the count is not below the current one.
\<close>

theorem ha_unit:
  assumes "SchedulerPolicy s = POLICY_BASED" and "0 <s TotalPending s"
    and "1 <s scaleUpFactor s" and "0 <s capacity a" and "- 1 \<le>s LastOrdinal s"
    and "sint (LastOrdinal s) + 1
           + spec_haUnits (sint (TotalPending s)) (sint (perPod a s)) (sint (scaleUpFactor s))
               * sint (scaleUpFactor s) < 2 ^ 31"
    and "attemptScaleDown \<or> \<not> sizeReplicas impl a s <s replicas"
  shows "sint (desiredReplicas impl a s replicas attemptScaleDown) - (sint (LastOrdinal s) + 1)
           = spec_haUnits (sint (TotalPending s)) (sint (perPod a s)) (sint (scaleUpFactor s))
               * sint (scaleUpFactor s)
         \<and> 0 < spec_haUnits (sint (TotalPending s)) (sint (perPod a s)) (sint (scaleUpFactor s))"
proof -
  let ?f = "scaleUpFactor s" and ?d = "perPod a s" and ?p = "TotalPending s"
  let ?m = "ceil_quot impl ?p ?d"
  let ?h = "spec_haUnits (sint ?p) (sint ?d) (sint ?f)"
  have d: "0 <s ?d" using assms(4) by (rule perPod_pos)
  have f: "0 <s ?f" using assms(3) by (simp add: word_sless_alt)
  have F: "0 < sint ?f" using f by (simp add: word_sless_alt)
  have L: "- 1 \<le> sint (LastOrdinal s)" using assms(5) by (simp add: word_sle_eq)
  note q2 = ceil_quot_pos(2) [OF assms(2) d, of impl]
  note q3 = ceil_quot_pos(3) [OF assms(2) d]
  have m: "0 <s ?m" using q2 q3 by (simp add: word_sless_alt del: of_int_sint)
  have h: "?h = \<lceil>of_int (sint ?m) / of_int (sint ?f) :: rat\<rceil>"
    unfolding spec_haUnits_def q2 ..
  have fit: "?h * sint ?f < 2 ^ 31" using assms(6) L by linarith
  then have fit': "\<lceil>of_int (sint ?m) / of_int (sint ?f) :: rat\<rceil> * sint ?f < 2 ^ 31"
    by (simp only: h)
  have c1: "sint (ceil_multiple impl ?m ?f) = ?h * sint ?f"
    unfolding h by (rule ceil_multiple_pos(1) [OF m f fit'])
  have c2: "0 < ?h"
    unfolding h by (rule ceil_multiple_pos(2) [OF m f fit'])
  have hpos: "0 < ?h * sint ?f" using c2 F by simp
  let ?n = "LastOrdinal s + 1 + ceil_multiple impl ?m ?f"
  have "sint (LastOrdinal s + 1) = signed_take_bit 31 (sint (LastOrdinal s) + 1)"
    by (simp add: sint_word_ariths)
  also have "\<dots> = sint (LastOrdinal s) + 1"
    using assms(6) L hpos by (intro signed_take_bit_int_eq_self) linarith+
  finally have l1: "sint (LastOrdinal s + 1) = sint (LastOrdinal s) + 1" .
  have "sint ?n = signed_take_bit 31 (sint (LastOrdinal s + 1) + sint (ceil_multiple impl ?m ?f))"
    using sint_word_ariths(1) [of "LastOrdinal s + 1" "ceil_multiple impl ?m ?f"] by simp
  also have "\<dots> = signed_take_bit 31 (sint (LastOrdinal s) + 1 + ?h * sint ?f)"
    by (simp only: l1 c1)
  also have "\<dots> = sint (LastOrdinal s) + 1 + ?h * sint ?f"
    using assms(6) L hpos by (intro signed_take_bit_int_eq_self) linarith+
  finally have n: "sint ?n = sint (LastOrdinal s) + 1 + ?h * sint ?f" .
  then have "\<not> ?n \<le>s LastOrdinal s" using hpos by (simp add: word_sle_eq)
  then have "sizeReplicas impl a s = ?n"
    using assms(1,2) by (simp add: sizeReplicas_def Let_def)
  moreover have "desiredReplicas impl a s replicas attemptScaleDown = sizeReplicas impl a s"
    using assms(7) by (auto simp: desiredReplicas_def Let_def)
  ultimately show ?thesis using n c2 by simp
qed

theorem ha_unit_witness:
  "SchedulerPolicy zoneState = POLICY_BASED \<and> 0 <s TotalPending zoneState
   \<and> 1 <s scaleUpFactor zoneState \<and> 0 <s capacity exampleAutoscaler
   \<and> - 1 \<le>s LastOrdinal zoneState
   \<and> spec_haUnits (sint (TotalPending zoneState)) (sint (perPod exampleAutoscaler zoneState))
         (sint (scaleUpFactor zoneState)) = 1
   \<and> sint (scaleUpFactor zoneState) = 3
   \<and> sint (desiredReplicas (\<lambda>_. 0) exampleAutoscaler zoneState 3 True) = 6"
proof -
  have h: "SchedulerPolicy zoneState = POLICY_BASED" "0 <s TotalPending zoneState"
    "1 <s scaleUpFactor zoneState" "0 <s capacity exampleAutoscaler"
    "- 1 \<le>s LastOrdinal zoneState"
    by code_simp+
  have u: "spec_haUnits (sint (TotalPending zoneState)) (sint (perPod exampleAutoscaler zoneState))
         (sint (scaleUpFactor zoneState)) = 1"
    by code_simp
  have f: "sint (scaleUpFactor zoneState) = 3" and l: "sint (LastOrdinal zoneState) = 2"
    by code_simp+
  have fit: "sint (LastOrdinal zoneState) + 1
           + spec_haUnits (sint (TotalPending zoneState)) (sint (perPod exampleAutoscaler zoneState))
               (sint (scaleUpFactor zoneState)) * sint (scaleUpFactor zoneState) < 2 ^ 31"
    by code_simp
  have g: "True \<or> \<not> sizeReplicas (\<lambda>_. 0) exampleAutoscaler zoneState <s 3" by simp
  from ha_unit [OF h fit g] show ?thesis
    using h u f l by simp
qed

section \<open>The eviction pass\<close>

lemma sint_succ:
  fixes j f :: int32
  assumes "j <s f" shows "sint (j + 1) = sint j + 1"
proof -
  have lt: "sint j < sint f" using assms by (simp add: word_sless_alt)
  have "sint f < 2 ^ 31" using sint_lt [of f] by simp
  with lt have "sint j + 1 < 2 ^ 31" by linarith
  moreover have "- (2 ^ 31) \<le> sint j" using sint_ge [of j] by simp
  ultimately show ?thesis
    by (simp add: sint_word_ariths signed_take_bit_int_eq_self)
qed

lemma evictLoop_done:
  "\<not> j <s f \<Longrightarrow> evictLoop env s f vpod p j v = (Inr v, [])"
  by (simp add: evictLoop.simps)

lemma evictLoop_skip:
  "j <s f \<Longrightarrow> OrdinalFromPodName env (PodName p) \<noteq> LastOrdinal s - j
   \<Longrightarrow> evictLoop env s f vpod p j v = evictLoop env s f vpod p (j + 1) v"
  by (subst evictLoop.simps) simp

lemma evictLoop_hit_fail:
  "j <s f \<Longrightarrow> OrdinalFromPodName env (PodName p) = LastOrdinal s - j
   \<Longrightarrow> podPoll (PodLister s) (PodName p) 0 (pollRetries env) v = (v', tr)
   \<Longrightarrow> evictor env (fst v') vpod p = Some e
   \<Longrightarrow> evictLoop env s f vpod p j v = (Inl e, tr @ [IO_Evict (fst v') vpod p])"
  by (subst evictLoop.simps) simp

lemma evictLoop_hit_ok:
  "j <s f \<Longrightarrow> OrdinalFromPodName env (PodName p) = LastOrdinal s - j
   \<Longrightarrow> podPoll (PodLister s) (PodName p) 0 (pollRetries env) v = (v', tr)
   \<Longrightarrow> evictor env (fst v') vpod p = None
   \<Longrightarrow> evictLoop env s f vpod p j v
       = (fst (evictLoop env s f vpod p (j + 1) (fst v', None)),
          tr @ [IO_Evict (fst v') vpod p] @ snd (evictLoop env s f vpod p (j + 1) (fst v', None)))"
  by (subst evictLoop.simps) (simp add: case_prod_beta)

text \<open>What one polling round returns.\<close>

lemma podPoll_None: "podPoll None name k n v = (v, [])"
  by (induction n arbitrary: k) (simp_all add: podCond_def)

lemma podPoll_Some:
  "\<exists>i \<le> n. fst (podPoll (Some get) name k n v) = get name (k + i)
      \<and> (snd (get name (k + i)) = None \<or> i = n)
      \<and> snd (podPoll (Some get) name k n v) = replicate (Suc i) (IO_PodGet name)"
proof (induction n arbitrary: k v)
  case 0
  show ?case by (simp add: podCond_def)
next
  case (Suc n)
  show ?case
  proof (cases "snd (get name k) = None")
    case True
    then have "fst (podPoll (Some get) name k (Suc n) v) = get name (k + 0)
        \<and> (snd (get name (k + 0)) = None \<or> 0 = Suc n)
        \<and> snd (podPoll (Some get) name k (Suc n) v) = replicate (Suc 0) (IO_PodGet name)"
      by (simp add: podCond_def)
    then show ?thesis by blast
  next
    case False
    from Suc.IH [of "Suc k" "get name k"] obtain i where i: "i \<le> n"
      "fst (podPoll (Some get) name (Suc k) n (get name k)) = get name (Suc k + i)"
      "snd (get name (Suc k + i)) = None \<or> i = n"
      "snd (podPoll (Some get) name (Suc k) n (get name k)) = replicate (Suc i) (IO_PodGet name)"
      by blast
    have "fst (podPoll (Some get) name k (Suc n) v) = get name (k + Suc i)
        \<and> (snd (get name (k + Suc i)) = None \<or> Suc i = Suc n)
        \<and> snd (podPoll (Some get) name k (Suc n) v) = replicate (Suc (Suc i)) (IO_PodGet name)"
      using False i by (simp add: podCond_def case_prod_beta)
    moreover have "Suc i \<le> Suc n" using i(1) by simp
    ultimately show ?thesis by blast
  qed
qed


text \<open>Induction along the loop over \<open>j\<close>.\<close>

lemma evictLoop_induct:
  fixes f :: int32
  assumes stop: "\<And>j v. \<not> j <s f \<Longrightarrow> P j v"
    and step: "\<And>j v. j <s f \<Longrightarrow> (\<And>v'. P (j + 1) v') \<Longrightarrow> P j v"
  shows "P j v"
proof (induction "nat (sint f - sint j)" arbitrary: j v rule: less_induct)
  case less
  show ?case
  proof (cases "j <s f")
    case False then show ?thesis by (rule stop)
  next
    case True
    then have "sint j < sint f" by (simp add: word_sless_alt)
    then have "nat (sint f - sint (j + 1)) < nat (sint f - sint j)"
      using sint_succ [OF True] by simp
    then have "\<And>v'. P (j + 1) v'" by (rule less)
    with True show ?thesis by (rule step)
  qed
qed

lemma podPoll_events:
  "ev \<in> set (snd (podPoll lister name 0 n v)) \<Longrightarrow> ev = IO_PodGet name"
proof (cases lister)
  case None
  assume "ev \<in> set (snd (podPoll lister name 0 n v))"
  then show ?thesis using None by (simp add: podPoll_None)
next
  case (Some get)
  assume ev: "ev \<in> set (snd (podPoll lister name 0 n v))"
  from podPoll_Some [of n get name 0 v] obtain i where
    "snd (podPoll (Some get) name 0 n v) = replicate (Suc i) (IO_PodGet name)" by blast
  with ev Some show ?thesis by auto
qed

lemma podPoll_podFrom:
  "podFrom env s p (fst v) (fst (fst (podPoll (PodLister s) (PodName p) 0 (pollRetries env) v)))"
proof (cases "PodLister s")
  case None
  then show ?thesis by (simp add: podFrom_def podPoll_None)
next
  case (Some get)
  from podPoll_Some [of "pollRetries env" get "PodName p" 0 v] obtain i where
    "i \<le> pollRetries env"
    "fst (podPoll (Some get) (PodName p) 0 (pollRetries env) v) = get (PodName p) (0 + i)" by blast
  then show ?thesis using Some by (auto simp: podFrom_def)
qed

lemma podPoll_keeps:
  "PodLister s = None \<Longrightarrow> fst (fst (podPoll (PodLister s) name 0 n v)) = fst v"
  by (simp add: podPoll_None)

lemma evictLoop_events:
  "ev \<in> set (snd (evictLoop env s f vpod p j v)) \<Longrightarrow>
     ev = IO_PodGet (PodName p)
     \<or> (\<exists>pod k. ev = IO_Evict pod vpod p \<and> sint j \<le> k \<and> k < sint f
           \<and> OrdinalFromPodName env (PodName p) = LastOrdinal s - word_of_int k
           \<and> podFrom env s p (fst v) pod)"
proof (induction j v rule: evictLoop_induct [where f = f])
  case (1 j v)
  then show ?case by (simp add: evictLoop_done)
next
  case (2 j v)
  let ?poll = "podPoll (PodLister s) (PodName p) 0 (pollRetries env) v"
  let ?v' = "fst ?poll" and ?tr = "snd ?poll"
  have poll: "?poll = (?v', ?tr)" by simp
  have lt: "sint j < sint f" using 2(1) by (simp add: word_sless_alt)
  have succ: "sint (j + 1) = sint j + 1" using 2(1) by (rule sint_succ)
  show ?case
  proof (cases "OrdinalFromPodName env (PodName p) = LastOrdinal s - j")
    case False
    with 2(1) have "evictLoop env s f vpod p j v = evictLoop env s f vpod p (j + 1) v"
      by (rule evictLoop_skip)
    with 2(3) have "ev \<in> set (snd (evictLoop env s f vpod p (j + 1) v))" by simp
    from 2(2) [OF this] show ?thesis
    proof
      assume "ev = IO_PodGet (PodName p)" then show ?thesis ..
    next
      assume "\<exists>pod k. ev = IO_Evict pod vpod p \<and> sint (j + 1) \<le> k \<and> k < sint f
         \<and> OrdinalFromPodName env (PodName p) = LastOrdinal s - word_of_int k
         \<and> podFrom env s p (fst v) pod"
      then obtain pod k where k: "ev = IO_Evict pod vpod p" "sint (j + 1) \<le> k" "k < sint f"
        "OrdinalFromPodName env (PodName p) = LastOrdinal s - word_of_int k"
        "podFrom env s p (fst v) pod" by blast
      have "sint j \<le> k" using k(2) succ by linarith
      with k show ?thesis by blast
    qed
  next
    case True
    have here: "\<exists>pod k. IO_Evict (fst ?v') vpod p = IO_Evict pod vpod p \<and> sint j \<le> k \<and> k < sint f
           \<and> OrdinalFromPodName env (PodName p) = LastOrdinal s - word_of_int k
           \<and> podFrom env s p (fst v) pod"
      using True lt podPoll_podFrom [of env s p v] by (intro exI [of _ "fst ?v'"] exI [of _ "sint j"]) simp
    show ?thesis
    proof (cases "evictor env (fst ?v') vpod p")
      case (Some e)
      from evictLoop_hit_fail [OF 2(1) True poll Some] 2(3)
      have "ev \<in> set ?tr \<or> ev = IO_Evict (fst ?v') vpod p" by auto
      then show ?thesis using here podPoll_events [of ev] by blast
    next
      case None
      from evictLoop_hit_ok [OF 2(1) True poll None] 2(3)
      have "ev \<in> set ?tr \<or> ev = IO_Evict (fst ?v') vpod p
          \<or> ev \<in> set (snd (evictLoop env s f vpod p (j + 1) (fst ?v', None)))" by auto
      then show ?thesis
      proof (elim disjE)
        assume "ev \<in> set ?tr" then show ?thesis using podPoll_events [of ev] by blast
      next
        assume "ev = IO_Evict (fst ?v') vpod p" then show ?thesis using here by blast
      next
        assume "ev \<in> set (snd (evictLoop env s f vpod p (j + 1) (fst ?v', None)))"
        from 2(2) [OF this] show ?thesis
        proof
          assume "ev = IO_PodGet (PodName p)" then show ?thesis ..
        next
          assume "\<exists>pod k. ev = IO_Evict pod vpod p \<and> sint (j + 1) \<le> k \<and> k < sint f
             \<and> OrdinalFromPodName env (PodName p) = LastOrdinal s - word_of_int k
             \<and> podFrom env s p (fst (fst ?v', None)) pod"
          then obtain pod k where k: "ev = IO_Evict pod vpod p" "sint (j + 1) \<le> k" "k < sint f"
            "OrdinalFromPodName env (PodName p) = LastOrdinal s - word_of_int k"
            "podFrom env s p (fst ?v') pod" by auto
          have "podFrom env s p (fst v) pod"
            using k(5) podPoll_keeps [of s "PodName p" "pollRetries env" v]
            by (cases "PodLister s") (simp_all add: podFrom_def)
          moreover have "sint j \<le> k" using k(2) succ by linarith
          ultimately show ?thesis using k by blast
        qed
      qed
    qed
  qed
qed


lemma evictLoop_error:
  "fst (evictLoop env s f vpod p j v) = Inl e \<Longrightarrow> \<exists>pod. evictor env pod vpod p = Some e"
proof (induction j v rule: evictLoop_induct [where f = f])
  case (1 j v)
  then show ?case by (simp add: evictLoop_done)
next
  case (2 j v)
  let ?poll = "podPoll (PodLister s) (PodName p) 0 (pollRetries env) v"
  have poll: "?poll = (fst ?poll, snd ?poll)" by simp
  show ?case
  proof (cases "OrdinalFromPodName env (PodName p) = LastOrdinal s - j")
    case False
    from evictLoop_skip [OF 2(1) False] 2(3) 2(2) show ?thesis by simp
  next
    case True
    show ?thesis
    proof (cases "evictor env (fst (fst ?poll)) vpod p")
      case (Some e')
      from evictLoop_hit_fail [OF 2(1) True poll Some] 2(3) have "e' = e" by simp
      with Some show ?thesis by blast
    next
      case None
      from evictLoop_hit_ok [OF 2(1) True poll None] 2(3) 2(2) show ?thesis by simp
    qed
  qed
qed

lemma evictLoop_keeps:
  "fst (evictLoop env s f vpod p j v) = Inr v' \<Longrightarrow> PodLister s = None \<Longrightarrow> fst v' = fst v"
proof (induction j v rule: evictLoop_induct [where f = f])
  case (1 j v)
  then show ?case by (simp add: evictLoop_done)
next
  case (2 j v)
  let ?poll = "podPoll (PodLister s) (PodName p) 0 (pollRetries env) v"
  have poll: "?poll = (fst ?poll, snd ?poll)" by simp
  show ?case
  proof (cases "OrdinalFromPodName env (PodName p) = LastOrdinal s - j")
    case False
    from evictLoop_skip [OF 2(1) False] 2(3) 2(4) 2(2) show ?thesis by simp
  next
    case True
    show ?thesis
    proof (cases "evictor env (fst (fst ?poll)) vpod p")
      case (Some e')
      from evictLoop_hit_fail [OF 2(1) True poll Some] 2(3) show ?thesis by simp
    next
      case None
      from evictLoop_hit_ok [OF 2(1) True poll None] 2(3)
      have "fst (evictLoop env s f vpod p (j + 1) (fst (fst ?poll), None)) = Inr v'" by simp
      from 2(2) [OF this 2(4)] show ?thesis
        using podPoll_keeps [OF 2(4), of "PodName p" "pollRetries env" v] by simp
    qed
  qed
qed

lemma evictLoop_complete:
  assumes nf: "\<And>pod. evictor env pod vpod p = None"
  shows "\<exists>v'. fst (evictLoop env s f vpod p j v) = Inr v'"
    and "sint j \<le> k \<Longrightarrow> k < sint f
         \<Longrightarrow> OrdinalFromPodName env (PodName p) = LastOrdinal s - word_of_int k
         \<Longrightarrow> \<exists>pod. IO_Evict pod vpod p \<in> set (snd (evictLoop env s f vpod p j v))"
proof -
  have "(\<exists>v'. fst (evictLoop env s f vpod p j v) = Inr v')
      \<and> (sint j \<le> k \<and> k < sint f
           \<and> OrdinalFromPodName env (PodName p) = LastOrdinal s - word_of_int k
         \<longrightarrow> (\<exists>pod. IO_Evict pod vpod p \<in> set (snd (evictLoop env s f vpod p j v))))"
  proof (induction j v rule: evictLoop_induct [where f = f])
    case (1 j v)
    then have "\<not> sint j < sint f" by (simp add: word_sless_alt)
    with 1 show ?case by (simp add: evictLoop_done)
  next
    case (2 j v)
    let ?poll = "podPoll (PodLister s) (PodName p) 0 (pollRetries env) v"
    have poll: "?poll = (fst ?poll, snd ?poll)" by simp
    have succ: "sint (j + 1) = sint j + 1" using 2(1) by (rule sint_succ)
    show ?case
    proof (cases "OrdinalFromPodName env (PodName p) = LastOrdinal s - j")
      case False
      have "k \<noteq> sint j"
        if "OrdinalFromPodName env (PodName p) = LastOrdinal s - word_of_int k"
        using that False by auto
      then have "sint (j + 1) \<le> k"
        if "sint j \<le> k" "OrdinalFromPodName env (PodName p) = LastOrdinal s - word_of_int k"
        using that succ by fastforce
      then show ?thesis
        using 2(2) [of v] unfolding evictLoop_skip [OF 2(1) False] by blast
    next
      case True
      from evictLoop_hit_ok [OF 2(1) True poll nf]
      show ?thesis using 2(2) [of "(fst (fst ?poll), None)"] by auto
    qed
  qed
  then show "\<exists>v'. fst (evictLoop env s f vpod p j v) = Inr v'"
    and "sint j \<le> k \<Longrightarrow> k < sint f
         \<Longrightarrow> OrdinalFromPodName env (PodName p) = LastOrdinal s - word_of_int k
         \<Longrightarrow> \<exists>pod. IO_Evict pod vpod p \<in> set (snd (evictLoop env s f vpod p j v))"
    by blast+
qed


lemma podFrom_cong:
  "(PodLister s = None \<Longrightarrow> pod0 = pod1) \<Longrightarrow> podFrom env s p pod0 pod \<Longrightarrow> podFrom env s p pod1 pod"
  by (cases "PodLister s") (simp_all add: podFrom_def)

lemma evictLoop_window:
  assumes "IO_Evict pod vp p' \<in> set (snd (evictLoop env s f vpod p 0 v))"
  shows "vp = vpod \<and> p' = p \<and> inWindow env s f p \<and> podFrom env s p (fst v) pod"
  using evictLoop_events [OF assms] by (auto simp: inWindow_def)

text \<open>The loop over the placements of one vpod.\<close>

lemma placementsLoop_Inl:
  "fst (evictLoop env s f vpod p 0 v) = Inl e \<Longrightarrow>
   placementsLoop env s f vpod (p # ps) v = (Inl e, snd (evictLoop env s f vpod p 0 v))"
  by (cases "evictLoop env s f vpod p 0 v") simp

lemma placementsLoop_Inr:
  "fst (evictLoop env s f vpod p 0 v) = Inr v' \<Longrightarrow>
   placementsLoop env s f vpod (p # ps) v
     = (fst (placementsLoop env s f vpod ps v'),
        snd (evictLoop env s f vpod p 0 v) @ snd (placementsLoop env s f vpod ps v'))"
  by (cases "evictLoop env s f vpod p 0 v") (simp add: case_prod_beta)

lemma placementsLoop_error:
  "fst (placementsLoop env s f vpod ps v) = Inl e \<Longrightarrow> \<exists>pod p. evictor env pod vpod p = Some e"
proof (induction ps arbitrary: v)
  case Nil then show ?case by simp
next
  case (Cons p ps)
  show ?case
  proof (cases "fst (evictLoop env s f vpod p 0 v)")
    case (Inl e')
    from Cons.prems have "e' = e" unfolding placementsLoop_Inl [OF Inl] by simp
    with Inl evictLoop_error show ?thesis by blast
  next
    case (Inr v')
    from Cons.prems have "fst (placementsLoop env s f vpod ps v') = Inl e"
      unfolding placementsLoop_Inr [OF Inr] by simp
    then show ?thesis by (rule Cons.IH)
  qed
qed

lemma placementsLoop_keeps:
  "fst (placementsLoop env s f vpod ps v) = Inr v' \<Longrightarrow> PodLister s = None \<Longrightarrow> fst v' = fst v"
proof (induction ps arbitrary: v)
  case Nil then show ?case by simp
next
  case (Cons p ps)
  show ?case
  proof (cases "fst (evictLoop env s f vpod p 0 v)")
    case (Inl e')
    from Cons.prems(1) show ?thesis unfolding placementsLoop_Inl [OF Inl] by simp
  next
    case (Inr w)
    from Cons.prems(1) have "fst (placementsLoop env s f vpod ps w) = Inr v'"
      unfolding placementsLoop_Inr [OF Inr] by simp
    then have "fst v' = fst w" using Cons.prems(2) by (rule Cons.IH)
    also have "fst w = fst v" using Inr Cons.prems(2) by (rule evictLoop_keeps)
    finally show ?thesis .
  qed
qed

lemma placementsLoop_events:
  "IO_Evict pod vp p' \<in> set (snd (placementsLoop env s f vpod ps v)) \<Longrightarrow>
     vp = vpod \<and> p' \<in> set ps \<and> inWindow env s f p' \<and> podFrom env s p' (fst v) pod"
proof (induction ps arbitrary: v)
  case Nil then show ?case by simp
next
  case (Cons p ps)
  show ?case
  proof (cases "fst (evictLoop env s f vpod p 0 v)")
    case (Inl e')
    from Cons.prems have "IO_Evict pod vp p' \<in> set (snd (evictLoop env s f vpod p 0 v))"
      unfolding placementsLoop_Inl [OF Inl] by simp
    from evictLoop_window [OF this] show ?thesis by simp
  next
    case (Inr w)
    from Cons.prems have "IO_Evict pod vp p' \<in> set (snd (evictLoop env s f vpod p 0 v))
        \<or> IO_Evict pod vp p' \<in> set (snd (placementsLoop env s f vpod ps w))"
      unfolding placementsLoop_Inr [OF Inr] by simp
    then show ?thesis
    proof
      assume "IO_Evict pod vp p' \<in> set (snd (evictLoop env s f vpod p 0 v))"
      from evictLoop_window [OF this] show ?thesis by simp
    next
      assume "IO_Evict pod vp p' \<in> set (snd (placementsLoop env s f vpod ps w))"
      from Cons.IH [OF this]
      have *: "vp = vpod" "p' \<in> set ps" "inWindow env s f p'" "podFrom env s p' (fst w) pod"
        by simp_all
      have "podFrom env s p' (fst v) pod"
        using evictLoop_keeps [OF Inr] *(4) by (rule podFrom_cong)
      with * show ?thesis by simp
    qed
  qed
qed

lemma placementsLoop_complete:
  assumes nf: "\<And>pod p. evictor env pod vpod p = None"
  shows "(\<exists>v'. fst (placementsLoop env s f vpod ps v) = Inr v')
       \<and> (p \<in> set ps \<and> inWindow env s f p
          \<longrightarrow> (\<exists>pod. IO_Evict pod vpod p \<in> set (snd (placementsLoop env s f vpod ps v))))"
proof (induction ps arbitrary: v)
  case Nil then show ?case by simp
next
  case (Cons q ps)
  from evictLoop_complete(1) [of env vpod q s f 0 v, OF nf]
  obtain w where w: "fst (evictLoop env s f vpod q 0 v) = Inr w" by blast
  have here: "\<exists>pod. IO_Evict pod vpod q \<in> set (snd (evictLoop env s f vpod q 0 v))"
    if "inWindow env s f q"
  proof -
    from that obtain k where "0 \<le> k" "k < sint f"
      "OrdinalFromPodName env (PodName q) = LastOrdinal s - word_of_int k"
      by (auto simp: inWindow_def)
    then show ?thesis using evictLoop_complete(2) [of env vpod q 0 k f s v, OF nf] by simp
  qed
  show ?case
    using Cons.IH [of w] here unfolding placementsLoop_Inr [OF w] by auto
qed


text \<open>The loop over the vpods.\<close>

lemma vpodsLoop_Inl:
  "fst (placementsLoop env s f vpod (rev (Placements vpod)) v) = Inl e \<Longrightarrow>
   vpodsLoop env s f (vpod # vpods) v
     = (Inl e, snd (placementsLoop env s f vpod (rev (Placements vpod)) v))"
  by (cases "placementsLoop env s f vpod (rev (Placements vpod)) v") simp

lemma vpodsLoop_Inr:
  "fst (placementsLoop env s f vpod (rev (Placements vpod)) v) = Inr v' \<Longrightarrow>
   vpodsLoop env s f (vpod # vpods) v
     = (fst (vpodsLoop env s f vpods v'),
        snd (placementsLoop env s f vpod (rev (Placements vpod)) v)
          @ snd (vpodsLoop env s f vpods v'))"
  by (cases "placementsLoop env s f vpod (rev (Placements vpod)) v") (simp add: case_prod_beta)

lemma vpodsLoop_error:
  "fst (vpodsLoop env s f vpods v) = Inl e \<Longrightarrow> \<exists>pod vpod p. evictor env pod vpod p = Some e"
proof (induction vpods arbitrary: v)
  case Nil then show ?case by simp
next
  case (Cons vpod vpods)
  show ?case
  proof (cases "fst (placementsLoop env s f vpod (rev (Placements vpod)) v)")
    case (Inl e')
    from Cons.prems have "e' = e" unfolding vpodsLoop_Inl [OF Inl] by simp
    with Inl placementsLoop_error show ?thesis by blast
  next
    case (Inr v')
    from Cons.prems have "fst (vpodsLoop env s f vpods v') = Inl e"
      unfolding vpodsLoop_Inr [OF Inr] by simp
    then show ?thesis by (rule Cons.IH)
  qed
qed

lemma vpodsLoop_events:
  "IO_Evict pod vp p \<in> set (snd (vpodsLoop env s f vpods v)) \<Longrightarrow>
     vp \<in> set vpods \<and> p \<in> set (Placements vp) \<and> inWindow env s f p
     \<and> podFrom env s p (fst v) pod"
proof (induction vpods arbitrary: v)
  case Nil then show ?case by simp
next
  case (Cons vpod vpods)
  let ?pl = "placementsLoop env s f vpod (rev (Placements vpod)) v"
  have first: "vp = vpod \<and> p \<in> set (Placements vp) \<and> inWindow env s f p
      \<and> podFrom env s p (fst v) pod" if "IO_Evict pod vp p \<in> set (snd ?pl)"
    using placementsLoop_events [OF that] by simp
  show ?case
  proof (cases "fst ?pl")
    case (Inl e')
    from Cons.prems have "IO_Evict pod vp p \<in> set (snd ?pl)"
      unfolding vpodsLoop_Inl [OF Inl] by simp
    from first [OF this] show ?thesis by auto
  next
    case (Inr w)
    from Cons.prems have "IO_Evict pod vp p \<in> set (snd ?pl)
        \<or> IO_Evict pod vp p \<in> set (snd (vpodsLoop env s f vpods w))"
      unfolding vpodsLoop_Inr [OF Inr] by simp
    then show ?thesis
    proof
      assume "IO_Evict pod vp p \<in> set (snd ?pl)"
      from first [OF this] show ?thesis by auto
    next
      assume "IO_Evict pod vp p \<in> set (snd (vpodsLoop env s f vpods w))"
      from Cons.IH [OF this]
      have *: "vp \<in> set vpods" "p \<in> set (Placements vp)" "inWindow env s f p"
        "podFrom env s p (fst w) pod"
        by simp_all
      have "podFrom env s p (fst v) pod"
        using placementsLoop_keeps [OF Inr] *(4) by (rule podFrom_cong)
      with * show ?thesis by simp
    qed
  qed
qed

lemma vpodsLoop_complete:
  assumes nf: "\<And>pod vpod p. evictor env pod vpod p = None"
  shows "(\<exists>v'. fst (vpodsLoop env s f vpods v) = Inr v')
       \<and> (vpod \<in> set vpods \<and> p \<in> set (Placements vpod) \<and> inWindow env s f p
          \<longrightarrow> (\<exists>pod. IO_Evict pod vpod p \<in> set (snd (vpodsLoop env s f vpods v))))"
proof (induction vpods arbitrary: v)
  case Nil then show ?case by simp
next
  case (Cons q vpods)
  from placementsLoop_complete [of env q s f "rev (Placements q)" v, OF nf]
  obtain w where w: "fst (placementsLoop env s f q (rev (Placements q)) v) = Inr w" by blast
  have here: "\<exists>pod. IO_Evict pod q p
        \<in> set (snd (placementsLoop env s f q (rev (Placements q)) v))"
    if "p \<in> set (Placements q)" "inWindow env s f p"
    using that placementsLoop_complete [of env q s f "rev (Placements q)" v p, OF nf] by simp
  show ?case
    using Cons.IH [of w] here unfolding vpodsLoop_Inr [OF w] by auto
qed

text \<open>The eviction pass.\<close>

lemma compact_Inr:
  "vpodLister env = Inr vpods \<Longrightarrow>
   compact env a s f
     = ((case fst (vpodsLoop env s f vpods (None, None)) of Inl e \<Rightarrow> Some e | Inr v \<Rightarrow> None),
        IO_VPodLister # snd (vpodsLoop env s f vpods (None, None)))"
  by (cases "vpodsLoop env s f vpods (None, None)") (simp add: compact_def split: sum.split)

lemma compact_events:
  assumes "IO_Evict pod vpod p \<in> set (snd (compact env a s f))"
  shows "\<exists>vpods. vpodLister env = Inr vpods \<and> vpod \<in> set vpods"
    and "p \<in> set (Placements vpod)" and "inWindow env s f p" and "podFrom env s p None pod"
proof -
  obtain vpods where l: "vpodLister env = Inr vpods"
    using assms by (cases "vpodLister env") (simp_all add: compact_def)
  have "snd (compact env a s f) = IO_VPodLister # snd (vpodsLoop env s f vpods (None, None))"
    by (simp add: compact_Inr [OF l])
  with assms have "IO_Evict pod vpod p \<in> set (snd (vpodsLoop env s f vpods (None, None)))"
    by simp
  from vpodsLoop_events [OF this] l
  show "\<exists>vpods. vpodLister env = Inr vpods \<and> vpod \<in> set vpods"
    and "p \<in> set (Placements vpod)" and "inWindow env s f p" and "podFrom env s p None pod"
    by simp_all
qed

lemma compact_error:
  assumes "fst (compact env a s f) = Some e"
  shows "vpodLister env = Inl e \<or> (\<exists>pod vpod p. evictor env pod vpod p = Some e)"
proof (cases "vpodLister env")
  case (Inl e')
  with assms show ?thesis by (simp add: compact_def)
next
  case (Inr vpods)
  with assms have "fst (vpodsLoop env s f vpods (None, None)) = Inl e"
    by (simp add: compact_Inr split: sum.splits)
  from vpodsLoop_error [OF this] show ?thesis ..
qed

lemma compact_complete:
  assumes nf: "\<And>pod vpod p. evictor env pod vpod p = None"
    and l: "vpodLister env = Inr vpods"
  shows "fst (compact env a s f) = None"
    and "vpod \<in> set vpods \<Longrightarrow> p \<in> set (Placements vpod) \<Longrightarrow> inWindow env s f p
         \<Longrightarrow> \<exists>pod. IO_Evict pod vpod p \<in> set (snd (compact env a s f))"
proof -
  from vpodsLoop_complete [of env s f vpods "(None, None)", OF nf]
  obtain w where w: "fst (vpodsLoop env s f vpods (None, None)) = Inr w" by blast
  then show "fst (compact env a s f) = None"
    by (simp add: compact_Inr [OF l])
  have tr: "snd (compact env a s f) = IO_VPodLister # snd (vpodsLoop env s f vpods (None, None))"
    by (simp add: compact_Inr [OF l])
  show "\<exists>pod. IO_Evict pod vpod p \<in> set (snd (compact env a s f))"
    if "vpod \<in> set vpods" "p \<in> set (Placements vpod)" "inWindow env s f p"
    using that vpodsLoop_complete [of env s f vpods "(None, None)" vpod p, OF nf]
    unfolding tr by auto
qed

text \<open>
  C9: let every lookup of a placement's pod name fail with a nil pod during the polling,
  or let the snapshot have no pod lister. Then the evictor is only ever invoked with a nil
  pod for that placement; an error of the pass is the vpod lister's or the evictor's,
  never the lookup's; and when the evictor does not fail, the pass ends without error and
  has invoked the evictor with a nil pod for the placement, if it lies in the window.
\<close>

theorem lookup_failure_swallowed:
  assumes "PodLister s = None
           \<or> (\<exists>get. PodLister s = Some get
                \<and> (\<forall>k \<le> pollRetries env. \<exists>e. get (PodName p) k = (None, Some e)))"
  shows "(\<forall>pod vpod. IO_Evict pod vpod p \<in> set (snd (compact env a s f)) \<longrightarrow> pod = None)
       \<and> (\<forall>e. fst (compact env a s f) = Some e
             \<longrightarrow> vpodLister env = Inl e \<or> (\<exists>pod vpod p'. evictor env pod vpod p' = Some e))
       \<and> ((\<forall>pod vpod p'. evictor env pod vpod p' = None)
           \<longrightarrow> (\<forall>vpods vpod. vpodLister env = Inr vpods \<and> vpod \<in> set vpods
                   \<and> p \<in> set (Placements vpod) \<and> inWindow env s f p
                 \<longrightarrow> fst (compact env a s f) = None
                     \<and> IO_Evict None vpod p \<in> set (snd (compact env a s f))))"
proof -
  have nil: "pod = None" if "IO_Evict pod vpod p \<in> set (snd (compact env a s f))" for pod vpod
  proof -
    from compact_events(4) [OF that] have src: "podFrom env s p None pod" .
    from assms show ?thesis
    proof
      assume "PodLister s = None"
      with src show ?thesis by (simp add: podFrom_def)
    next
      assume "\<exists>get. PodLister s = Some get
                \<and> (\<forall>k \<le> pollRetries env. \<exists>e. get (PodName p) k = (None, Some e))"
      then obtain get where get: "PodLister s = Some get"
        "\<forall>k \<le> pollRetries env. \<exists>e. get (PodName p) k = (None, Some e)" by blast
      from src get(1) obtain i where "i \<le> pollRetries env" "pod = fst (get (PodName p) i)"
        by (auto simp: podFrom_def)
      with get(2) show ?thesis by fastforce
    qed
  qed
  have fin: "fst (compact env a s f) = None
       \<and> IO_Evict None vpod p \<in> set (snd (compact env a s f))"
    if nf: "\<forall>pod vpod p'. evictor env pod vpod p' = None"
      and l: "vpodLister env = Inr vpods" "vpod \<in> set vpods" "p \<in> set (Placements vpod)"
        "inWindow env s f p" for vpods vpod
  proof -
    have nf': "\<And>pod vpod p. evictor env pod vpod p = None" using nf by blast
    from compact_complete(2) [of env vpods vpod p s f a, OF nf' l]
    obtain pod where "IO_Evict pod vpod p \<in> set (snd (compact env a s f))" by blast
    with nil [OF this] compact_complete(1) [of env vpods a s f, OF nf' l(1)] show ?thesis by simp
  qed
  show ?thesis using nil compact_error [of env a s f] fin by blast
qed

theorem lookup_failure_swallowed_witness:
  "pollRetries (exampleEnv lostPodsState 3 100000000000) = 100
   \<and> snd (compact (exampleEnv lostPodsState 3 100000000000) exampleAutoscaler lostPodsState 1)
       = IO_VPodLister # replicate 101 (IO_PodGet ''pod-2'')
           @ [IO_Evict None exampleVPod \<lparr>PodName = ''pod-2'', VReplicas = 5\<rparr>]
   \<and> fst (compact (exampleEnv lostPodsState 3 100000000000) exampleAutoscaler lostPodsState 1)
       = None
   \<and> PodLister compactState = None
   \<and> IO_Evict None exampleVPod \<lparr>PodName = ''pod-2'', VReplicas = 5\<rparr>
       \<in> set (snd (compact (exampleEnv compactState 3 100000000000) exampleAutoscaler
                      compactState 1))"
proof -
  let ?p = "\<lparr>PodName = ''pod-2'', VReplicas = 5\<rparr>"
  let ?env = "exampleEnv lostPodsState 3 100000000000"
  let ?env' = "exampleEnv compactState 3 100000000000"
  have fails: "PodLister lostPodsState = None
           \<or> (\<exists>get. PodLister lostPodsState = Some get
                \<and> (\<forall>k \<le> pollRetries ?env. \<exists>e. get (PodName ?p) k = (None, Some e)))"
    by (simp add: lostPodsState_def)
  have nolister: "PodLister compactState = None
           \<or> (\<exists>get. PodLister compactState = Some get
                \<and> (\<forall>k \<le> pollRetries ?env'. \<exists>e. get (PodName ?p) k = (None, Some e)))"
    by (simp add: compactState_def tailState_def)
  have nf: "\<forall>pod vpod p'. evictor ?env pod vpod p' = None"
    "\<forall>pod vpod p'. evictor ?env' pod vpod p' = None"
    by (simp_all add: exampleEnv_def)
  have l: "vpodLister ?env = Inr [exampleVPod]" "vpodLister ?env' = Inr [exampleVPod]"
    "exampleVPod \<in> set [exampleVPod]" "?p \<in> set (Placements exampleVPod)"
    by (simp_all add: exampleEnv_def exampleVPod_def)
  have "0 \<le> (0::int) \<and> 0 < sint (1::int32)
        \<and> OrdinalFromPodName ?env (PodName ?p) = LastOrdinal lostPodsState - word_of_int 0"
    by code_simp
  then have w: "inWindow ?env lostPodsState 1 ?p" unfolding inWindow_def by blast
  have "0 \<le> (0::int) \<and> 0 < sint (1::int32)
        \<and> OrdinalFromPodName ?env' (PodName ?p) = LastOrdinal compactState - word_of_int 0"
    by code_simp
  then have w': "inWindow ?env' compactState 1 ?p" unfolding inWindow_def by blast
  have r: "pollRetries ?env = 100" by (simp add: exampleEnv_def)
  have tr: "snd (compact ?env exampleAutoscaler lostPodsState 1)
       = IO_VPodLister # replicate 101 (IO_PodGet ''pod-2'') @ [IO_Evict None exampleVPod ?p]"
    by code_simp
  have n: "PodLister compactState = None" by (simp add: compactState_def tailState_def)
  from lookup_failure_swallowed [OF fails, of exampleAutoscaler 1] nf(1) l w
  have "fst (compact ?env exampleAutoscaler lostPodsState 1) = None" by blast
  moreover from lookup_failure_swallowed [OF nolister, of exampleAutoscaler 1] nf(2) l w'
  have "IO_Evict None exampleVPod ?p \<in> set (snd (compact ?env' exampleAutoscaler compactState 1))"
    by blast
  ultimately show ?thesis using r tr n by simp
qed

section \<open>The grace window\<close>

lemma mayCompact_cases:
  "mayCompact env a s f = (a, [IO_Now]) \<or> mayCompact env a s f = attemptCompact env a s f"
  by (simp add: mayCompact_def Let_def split: prod.split)





section \<open>Tail-only eviction\<close>

lemma attemptCompact_events:
  "IO_Evict pod vpod p \<in> set (snd (attemptCompact env a s f)) \<Longrightarrow> inWindow env s f p"
proof -
  assume ev: "IO_Evict pod vpod p \<in> set (snd (attemptCompact env a s f))"
  let ?a' = "a\<lparr>lastCompactAttempt := nowAttempt env\<rparr>"
  have "snd (attemptCompact env a s f) = IO_Now # IO_Now # snd (compact env ?a' s f)"
    by (simp add: attemptCompact_def Let_def case_prod_beta)
  with ev have "IO_Evict pod vpod p \<in> set (snd (compact env ?a' s f))" by simp
  then show ?thesis by (rule compact_events(3))
qed

lemma mayCompact_events:
  assumes "IO_Evict pod vpod p \<in> set (snd (mayCompact env a s f))"
  shows "inWindow env s f p"
  using mayCompact_cases [of env a s f] assms attemptCompact_events [of pod vpod p env a s f]
  by auto

text \<open>
  Every placement for which a pass invokes the evictor lies in the window of the
  snapshot's scale-up factor.
\<close>

lemma doautoscale_evicts_in_window:
  assumes "IO_Evict pod vpod p \<in> set (snd (snd (doautoscale env a attemptScaleDown)))"
  shows "\<exists>state. stateAccessor env = Inr state \<and> inWindow env state (scaleUpFactor state) p"
proof -
  have leader: "isLeader a" using assms by (cases "isLeader a") (simp_all add: doautoscale_def)
  obtain state where st: "stateAccessor env = Inr state"
    using assms leader by (cases "stateAccessor env") (simp_all add: doautoscale_def)
  obtain replicas where sc: "GetScale env = Inr replicas"
    using assms leader st by (cases "GetScale env") (simp_all add: doautoscale_def)
  have "IO_Evict pod vpod p \<in> set (snd (mayCompact env a state (scaleUpFactor state)))"
    using assms leader st sc
    by (simp add: doautoscale_def Let_def case_prod_beta split: if_splits)
  then have "inWindow env state (scaleUpFactor state) p" by (rule mayCompact_events)
  with st show ?thesis by blast
qed

text \<open>With a factor of 1 the window is the last ordinal alone.\<close>

lemma inWindow_one:
  "inWindow env s 1 p \<longleftrightarrow> OrdinalFromPodName env (PodName p) = LastOrdinal s"
proof
  assume "inWindow env s 1 p"
  then obtain k where "0 \<le> k" "k < 1"
    "OrdinalFromPodName env (PodName p) = LastOrdinal s - word_of_int k"
    by (auto simp: inWindow_def)
  moreover from this have "k = 0" by simp
  ultimately show "OrdinalFromPodName env (PodName p) = LastOrdinal s" by simp
next
  assume "OrdinalFromPodName env (PodName p) = LastOrdinal s"
  then have "0 \<le> (0::int) \<and> (0::int) < sint (1::int32)
      \<and> OrdinalFromPodName env (PodName p) = LastOrdinal s - word_of_int 0" by simp
  then show "inWindow env s 1 p" unfolding inWindow_def by blast
qed

text \<open>
  C2: every placement for which a pass invokes the evictor lies in the window of the
  scale-up factor, as shown above. Under \<open>MAXFILLUP\<close> the window should be the last
  pod alone: the comments of that branch of \<open>mayCompact\<close> speak of the last pod, and
  its check of the free capacity covers the last pod only. But the branch hands the
  scale-up factor to \<open>compact\<close>: under \<open>MAXFILLUP\<close> with the zone priority and two
  zones, last ordinal 2, a scale-down tick evicts the placement on pod 1 as well.
\<close>

theorem maxfillup_evicts_below_last:
  "SchedulerPolicy tailState = MAXFILLUP \<and> LastOrdinal tailState = 2
   \<and> scaleUpFactor tailState = 2
   \<and> OrdinalFromPodName (exampleEnv tailState 3 100000000000) ''pod-1'' = 1
   \<and> snd (snd (doautoscale (exampleEnv tailState 3 100000000000) exampleAutoscaler True))
       = [IO_State, IO_GetScale, IO_Now, IO_Now, IO_VPodLister,
          IO_Evict None exampleVPod \<lparr>PodName = ''pod-2'', VReplicas = 5\<rparr>,
          IO_Evict None exampleVPod \<lparr>PodName = ''pod-1'', VReplicas = 5\<rparr>]"
proof -
  have "SchedulerPolicy tailState = MAXFILLUP" "LastOrdinal tailState = 2"
    "scaleUpFactor tailState = 2"
    "OrdinalFromPodName (exampleEnv tailState 3 100000000000) ''pod-1'' = 1"
    by code_simp+
  moreover have "snd (snd (doautoscale (exampleEnv tailState 3 100000000000) exampleAutoscaler True))
       = [IO_State, IO_GetScale, IO_Now, IO_Now, IO_VPodLister,
          IO_Evict None exampleVPod \<lparr>PodName = ''pod-2'', VReplicas = 5\<rparr>,
          IO_Evict None exampleVPod \<lparr>PodName = ''pod-1'', VReplicas = 5\<rparr>]"
    by code_simp
  ultimately show ?thesis by simp
qed

end
